theory Spec2Isabelle
  imports Main "HOL-Library.Sublist"
begin

section \<open>Go strings, as the ingest code uses them\<close>

text \<open>
  A Go string is a sequence of bytes, here a \<open>string\<close> (one \<open>char\<close> per byte).
  The functions of package \<open>strings\<close> that the code calls read those bytes as UTF-8;
  the definitions below work on the encoded bytes, so that white space beyond ASCII
  (U+0085, U+00A0, U+1680, U+2000..U+200A, U+2028, U+2029, U+202F, U+205F, U+3000)
  is trimmed as \<open>unicode.IsSpace\<close> trims it.
\<close>

definition byte :: "char \<Rightarrow> nat" where
  "byte c = of_char c"

text \<open>The number of bytes of the white-space rune a string starts with; 0 when it starts with none.\<close>

definition space_len :: "string \<Rightarrow> nat" where
  "space_len s =
     (case map byte (take 3 s) of
        [] \<Rightarrow> 0
      | b0 # bs \<Rightarrow>
          if b0 = 9 \<or> b0 = 10 \<or> b0 = 11 \<or> b0 = 12 \<or> b0 = 13 \<or> b0 = 32 then 1
          else if b0 = 0xC2 then
            (case bs of b1 # _ \<Rightarrow> if b1 = 0x85 \<or> b1 = 0xA0 then 2 else 0 | [] \<Rightarrow> 0)
          else if b0 = 0xE1 then
            (case bs of [b1, b2] \<Rightarrow> if b1 = 0x9A \<and> b2 = 0x80 then 3 else 0 | _ \<Rightarrow> 0)
          else if b0 = 0xE2 then
            (case bs of
               [b1, b2] \<Rightarrow>
                 if (b1 = 0x80 \<and> (0x80 \<le> b2 \<and> b2 \<le> 0x8A \<or> b2 = 0xA8 \<or> b2 = 0xA9 \<or> b2 = 0xAF))
                    \<or> (b1 = 0x81 \<and> b2 = 0x9F)
                 then 3 else 0
             | _ \<Rightarrow> 0)
          else if b0 = 0xE3 then
            (case bs of [b1, b2] \<Rightarrow> if b1 = 0x80 \<and> b2 = 0x80 then 3 else 0 | _ \<Rightarrow> 0)
          else 0)"

text \<open>The same for the rune a string ends with, read on the reversed string.\<close>

definition space_len_rev :: "string \<Rightarrow> nat" where
  "space_len_rev r =
     (case map byte (take 3 r) of
        [] \<Rightarrow> 0
      | b # bs \<Rightarrow>
          if b = 9 \<or> b = 10 \<or> b = 11 \<or> b = 12 \<or> b = 13 \<or> b = 32 then 1
          else if (b = 0x85 \<or> b = 0xA0) \<and> take 1 bs = [0xC2] then 2
          else if space_len (rev (take 3 r)) = 3 then 3
          else 0)"

fun trimLeftSpace :: "string \<Rightarrow> string" where
  "trimLeftSpace [] = []"
| "trimLeftSpace (c # cs) =
     (if space_len (c # cs) = 0 then c # cs
      else trimLeftSpace (drop (space_len (c # cs) - 1) cs))"

fun trimRightSpace_rev :: "string \<Rightarrow> string" where
  "trimRightSpace_rev [] = []"
| "trimRightSpace_rev (c # cs) =
     (if space_len_rev (c # cs) = 0 then c # cs
      else trimRightSpace_rev (drop (space_len_rev (c # cs) - 1) cs))"

definition TrimSpace :: "string \<Rightarrow> string" where
  "TrimSpace s = rev (trimRightSpace_rev (rev (trimLeftSpace s)))"

text \<open>
  \<open>strings.TrimLeft\<close> with the cutset of U+FEFF, space, tab, CR and LF: the leading runes of the cutset are
  removed; the byte order mark U+FEFF is the three bytes EF BB BF.
\<close>

fun TrimLeft_bom_ws :: "string \<Rightarrow> string" where
  "TrimLeft_bom_ws [] = []"
| "TrimLeft_bom_ws (c # cs) =
     (if byte c = 32 \<or> byte c = 9 \<or> byte c = 13 \<or> byte c = 10 then TrimLeft_bom_ws cs
      else if byte c = 0xEF \<and> map byte (take 2 cs) = [0xBB, 0xBF] then TrimLeft_bom_ws (drop 2 cs)
      else c # cs)"

text \<open>\<open>strings.TrimLeft(s, "#")\<close>.\<close>

definition TrimLeft_hash :: "string \<Rightarrow> string" where
  "TrimLeft_hash s = dropWhile (\<lambda>c. c = CHR ''#'') s"

definition HasPrefix :: "string \<Rightarrow> string \<Rightarrow> bool" where
  "HasPrefix s p = (take (length p) s = p)"

text \<open>\<open>strings.Split(s, sep)\<close> for a separator of one byte: never an empty list.\<close>

fun Split :: "string \<Rightarrow> char \<Rightarrow> string list" where
  "Split [] sep = [[]]"
| "Split (c # cs) sep =
     (if c = sep then [] # Split cs sep
      else (case Split cs sep of w # ws \<Rightarrow> (c # w) # ws | [] \<Rightarrow> [[c]]))"

fun Join :: "string list \<Rightarrow> string \<Rightarrow> string" where
  "Join [] sep = []"
| "Join [x] sep = x"
| "Join (x # y # ys) sep = x @ sep @ Join (y # ys) sep"

text \<open>\<open>strings.Repeat\<close> panics on a negative count; the heading levels it is given are 1 to 6.\<close>

definition Repeat :: "string \<Rightarrow> int \<Rightarrow> string" where
  "Repeat s n = concat (replicate (nat n) s)"

text \<open>\<open>strings.ReplaceAll(s, "\n", " ")\<close>.\<close>

definition ReplaceAll_nl_sp :: "string \<Rightarrow> string" where
  "ReplaceAll_nl_sp s = map (\<lambda>c. if c = CHR 0x0A then CHR 0x20 else c) s"

text \<open>\<open>strings.Fields\<close>: the maximal runs of bytes between white space; \<open>cur\<close> is the run being read, reversed.\<close>

fun Fields_from :: "string \<Rightarrow> string \<Rightarrow> string list" where
  "Fields_from cur [] = (if cur = [] then [] else [rev cur])"
| "Fields_from cur (c # cs) =
     (if space_len (c # cs) = 0 then Fields_from (c # cur) cs
      else (if cur = [] then [] else [rev cur])
           @ Fields_from [] (drop (space_len (c # cs) - 1) cs))"

definition Fields :: "string \<Rightarrow> string list" where
  "Fields s = Fields_from [] s"

text \<open>A slice \<open>src[start:stop]\<close>; the parser's segments lie inside the source they were read from.\<close>

type_synonym seg = "nat \<times> nat"

definition slice :: "string \<Rightarrow> seg \<Rightarrow> string" where
  "slice src sg = take (snd sg - fst sg) (drop (fst sg) src)"

section \<open>Values of type any, and JSON\<close>

text \<open>
  The values a \<open>map[string]any\<close> holds after YAML or JSON decoding. Only the strings are
  looked into (\<open>fm["title"].(string)\<close>); the others are kept as they are.
\<close>

datatype any =
    VString string
  | VInt int
  | VBool bool
  | VNull
  | VList "any list"
  | VMap "(string \<times> any) list"

text \<open>
  A \<open>json.RawMessage\<close> is kept as the JSON value it encodes. \<open>json.Marshal\<close> of a map
  writes the keys in sorted order.
\<close>

datatype json =
    JString string
  | JNumber int
  | JObject "(string \<times> json) list"

section \<open>The collaborators\<close>

text \<open>
  The block nodes of a parsed document (goldmark's \<open>ast.Node\<close>): a heading with its level,
  a paragraph, an inline text node with its segment of the source, and any other node with
  the name of its Go type. A block has the source segments of its lines (none for a node
  that has no \<open>Lines()\<close>) and its children.
\<close>

datatype node =
    Heading int "seg list" "node list"
  | Paragraph "seg list" "node list"
  | Text seg
  | Node string "seg list" "node list"

type_synonym uuid = nat

text \<open>
  The libraries and the database functions the code calls, taken as given:
  \<^item> \<open>goldmark_convert\<close>: \<open>goldmark.New(WithAutoHeadingID).Convert\<close>, \<open>None\<close> for an error;
  \<^item> \<open>goldmark_parse\<close>: the top-level children of \<open>goldmark.New().Parser().Parse\<close>;
  \<^item> \<open>sha256_hex\<close>: \<open>hex.EncodeToString(sha256.Sum256(b))\<close>;
  \<^item> \<open>yaml_unmarshal\<close>: the map \<open>yaml.Unmarshal\<close> leaves in an empty \<open>map[string]any\<close>
    (its error is dropped by the caller);
  \<^item> \<open>pg_uuid_in\<close>: how PostgreSQL reads a text parameter compared with a \<open>uuid\<close> column,
    \<open>None\<close> when the text is not a uuid.
\<close>

record env =
  goldmark_convert :: "string \<Rightarrow> string option"
  goldmark_parse :: "string \<Rightarrow> node list"
  sha256_hex :: "string \<Rightarrow> string"
  yaml_unmarshal :: "string \<Rightarrow> (string \<rightharpoonup> any)"
  pg_uuid_in :: "string \<Rightarrow> uuid option"

section \<open>Package storyingest\<close>

datatype err =
    TitleRequired
  | SlugRequired
  | InvalidSlug
  | MarkdownRequired
  | RenderFailed
  | AccountRequired
  | PublishArgsRequired
  | ErrNoRows
  | InvalidUUID
  | UniqueViolation

record Input =
  in_Slug :: string
  in_Title :: string
  in_Author :: string
  in_Markdown :: string
  in_Language :: string
  in_SourceURL :: string
  in_Rights :: "(string \<rightharpoonup> any) option"

record Segment =
  Ordinal :: int
  Locator :: json
  seg_Markdown :: string
  seg_RenderedHTML :: string
  WordCount :: int

record Output =
  Slug :: string
  Title :: string
  Author :: string
  Language :: string
  Source :: "string \<rightharpoonup> any"
  Rights :: "string \<rightharpoonup> any"
  Frontmatter :: "string \<rightharpoonup> any"
  Markdown :: string
  RenderedHTML :: string
  ContentHash :: string
  Segments :: "Segment list"

text \<open>\<open>slugRe\<close> is \<open>^[a-z0-9]+(?:-[a-z0-9]+)*$\<close>: runs of lower-case letters and digits, none empty, joined by single hyphens.\<close>

definition slug_char :: "char \<Rightarrow> bool" where
  "slug_char c = ((97 \<le> byte c \<and> byte c \<le> 122) \<or> (48 \<le> byte c \<and> byte c \<le> 57))"

definition slugRe_MatchString :: "string \<Rightarrow> bool" where
  "slugRe_MatchString s = list_all (\<lambda>p. p \<noteq> [] \<and> list_all slug_char p) (Split s (CHR ''-''))"

definition ValidateSlug :: "string \<Rightarrow> err option" where
  "ValidateSlug slug = (if \<not> slugRe_MatchString slug then Some InvalidSlug else None)"

text \<open>The first index from \<open>i\<close> on of a line that is \<open>---\<close> once trimmed (the loop of \<open>splitFrontmatter\<close>).\<close>

fun find_closing :: "string list \<Rightarrow> nat \<Rightarrow> nat option" where
  "find_closing [] i = None"
| "find_closing (l # ls) i = (if TrimSpace l = ''---'' then Some i else find_closing ls (Suc i))"

definition splitFrontmatter :: "env \<Rightarrow> string \<Rightarrow> (string \<rightharpoonup> any) \<times> string" where
  "splitFrontmatter e md =
     (let s = TrimLeft_bom_ws md in
      if \<not> HasPrefix s ''---\<newline>'' \<and> \<not> HasPrefix s (''---'' @ [CHR 0x0D, CHR 0x0A]) then (Map.empty, md)
      else
        let lines = Split s (CHR 0x0A) in
        if length lines < 3 then (Map.empty, md)
        else
          (case find_closing (drop 1 lines) 1 of
             None \<Rightarrow> (Map.empty, md)
           | Some end_i \<Rightarrow>
               let fmText = Join (take (end_i - 1) (drop 1 lines)) ''\<newline>'';
                   body = Join (drop (end_i + 1) lines) ''\<newline>''
               in (yaml_unmarshal e fmText, body)))"

definition render :: "env \<Rightarrow> string \<Rightarrow> string option" where
  "render e md = goldmark_convert e md"

text \<open>\<open>h, _ := render(md)\<close>: the error is dropped and the HTML is then empty.\<close>

definition render_or_empty :: "env \<Rightarrow> string \<Rightarrow> string" where
  "render_or_empty e md = (case render e md of Some h \<Rightarrow> h | None \<Rightarrow> [])"

definition wordCount :: "string \<Rightarrow> int" where
  "wordCount s = int (length (Fields (ReplaceAll_nl_sp s)))"

fun node_lines :: "node \<Rightarrow> seg list" where
  "node_lines (Heading l ls ks) = ls"
| "node_lines (Paragraph ls ks) = ls"
| "node_lines (Text sg) = []"
| "node_lines (Node ty ls ks) = ls"

definition extractBlockSource :: "string \<Rightarrow> node \<Rightarrow> string" where
  "extractBlockSource src n =
     (if node_lines n = [] then []
      else TrimSpace (concat (map (slice src) (node_lines n))))"

text \<open>\<open>walk\<close> of \<open>textContent\<close>: for each child in turn, the text of the child when it is a text node, then the walk of the child.\<close>

fun walk :: "string \<Rightarrow> node \<Rightarrow> string" where
  "walk src (Heading l ls ks) =
     concat (map (\<lambda>c. (case c of Text sg \<Rightarrow> slice src sg | _ \<Rightarrow> []) @ walk src c) ks)"
| "walk src (Paragraph ls ks) =
     concat (map (\<lambda>c. (case c of Text sg \<Rightarrow> slice src sg | _ \<Rightarrow> []) @ walk src c) ks)"
| "walk src (Text sg) = []"
| "walk src (Node ty ls ks) =
     concat (map (\<lambda>c. (case c of Text sg \<Rightarrow> slice src sg | _ \<Rightarrow> []) @ walk src c) ks)"

definition textContent :: "string \<Rightarrow> node \<Rightarrow> string" where
  "textContent src n = TrimSpace (walk src n)"

text \<open>The type name \<open>fmt.Sprintf("%T", n)\<close> prints.\<close>

fun type_name :: "node \<Rightarrow> string" where
  "type_name (Heading l ls ks) = ''*ast.Heading''"
| "type_name (Paragraph ls ks) = ''*ast.Paragraph''"
| "type_name (Text sg) = ''*ast.Text''"
| "type_name (Node ty ls ks) = ty"

text \<open>
  The loop over the top-level blocks, with its three counters. A heading and a paragraph
  always give a segment; any other block gives one unless its source text is blank.
\<close>

fun segment_blocks :: "env \<Rightarrow> string \<Rightarrow> int \<Rightarrow> int \<Rightarrow> int \<Rightarrow> node list \<Rightarrow> Segment list" where
  "segment_blocks e src ordinal paraN headIdx [] = []"
| "segment_blocks e src ordinal paraN headIdx (Heading level ls ks # ns) =
     (let txt0 = textContent src (Heading level ls ks);
          txt = (if txt0 = [] then extractBlockSource src (Heading level ls ks) else txt0);
          md = Repeat ''#'' level @ '' '' @ txt;
          h = render_or_empty e md;
          loc = JObject [(''h'', JNumber level), (''index'', JNumber headIdx), (''type'', JString ''heading'')]
      in \<lparr>Ordinal = ordinal, Locator = loc, seg_Markdown = md, seg_RenderedHTML = h,
           WordCount = wordCount txt\<rparr>
         # segment_blocks e src (ordinal + 1) paraN (headIdx + 1) ns)"
| "segment_blocks e src ordinal paraN headIdx (Paragraph ls ks # ns) =
     (let md0 = extractBlockSource src (Paragraph ls ks);
          md = (if md0 = [] then textContent src (Paragraph ls ks) else md0);
          h = render_or_empty e md;
          loc = JObject [(''n'', JNumber (paraN + 1)), (''type'', JString ''para'')]
      in \<lparr>Ordinal = ordinal, Locator = loc, seg_Markdown = md, seg_RenderedHTML = h,
           WordCount = wordCount md\<rparr>
         # segment_blocks e src (ordinal + 1) (paraN + 1) headIdx ns)"
| "segment_blocks e src ordinal paraN headIdx (n # ns) =
     (let md = extractBlockSource src n in
      if TrimSpace md = [] then segment_blocks e src ordinal paraN headIdx ns
      else
        let h = render_or_empty e md;
            loc = JObject [(''kind'', JString (type_name n)), (''type'', JString ''block'')]
        in \<lparr>Ordinal = ordinal, Locator = loc, seg_Markdown = md, seg_RenderedHTML = h,
             WordCount = wordCount md\<rparr>
           # segment_blocks e src (ordinal + 1) paraN headIdx ns)"

text \<open>\<open>v, ok := fm[k].(string)\<close>.\<close>

definition fm_string :: "(string \<rightharpoonup> any) \<Rightarrow> string \<Rightarrow> string option" where
  "fm_string fm k = (case fm k of Some (VString v) \<Rightarrow> Some v | _ \<Rightarrow> None)"

text \<open>\<open>if v, ok := fm[k].(string); cur == "" && ok { cur = strings.TrimSpace(v) }\<close>.\<close>

definition fall_back :: "(string \<rightharpoonup> any) \<Rightarrow> string \<Rightarrow> string \<Rightarrow> string" where
  "fall_back fm k cur =
     (case fm_string fm k of Some v \<Rightarrow> (if cur = [] then TrimSpace v else cur) | None \<Rightarrow> cur)"

text \<open>The \<open>source\<close> map: the URL under \<open>url\<close> when it is not blank.\<close>

definition source_of :: "string \<Rightarrow> (string \<rightharpoonup> any)" where
  "source_of sourceURL =
     (if TrimSpace sourceURL \<noteq> [] then [''url'' \<mapsto> VString (TrimSpace sourceURL)] else Map.empty)"

text \<open>The map \<open>frontmatter\<close> as it is built from the resolved fields, before the merge.\<close>

definition explicit_frontmatter :: "string \<Rightarrow> string \<Rightarrow> string \<Rightarrow> string \<Rightarrow> (string \<rightharpoonup> any)" where
  "explicit_frontmatter title author language sourceURL =
     (let frontmatter = [''title'' \<mapsto> VString title, ''author'' \<mapsto> VString author,
                         ''language'' \<mapsto> VString language]
      in if TrimSpace sourceURL \<noteq> []
         then frontmatter(''sourceUrl'' \<mapsto> VString (TrimSpace sourceURL))
         else frontmatter)"

text \<open>The merge loop: a key of \<open>fm\<close> is copied unless \<open>frontmatter\<close> has it.\<close>

definition merge_frontmatter :: "(string \<rightharpoonup> any) \<Rightarrow> (string \<rightharpoonup> any) \<Rightarrow> (string \<rightharpoonup> any)" where
  "merge_frontmatter frontmatter fm =
     (\<lambda>k. case frontmatter k of Some v \<Rightarrow> Some v | None \<Rightarrow> fm k)"

definition Ingest :: "env \<Rightarrow> Input \<Rightarrow> err + Output" where
  "Ingest e inp =
     (let slug = TrimSpace (in_Slug inp);
          title0 = TrimSpace (in_Title inp);
          author0 = TrimSpace (in_Author inp)
      in
      if title0 = [] then Inl TitleRequired
      else if slug = [] then Inl SlugRequired
      else if ValidateSlug slug \<noteq> None then Inl InvalidSlug
      else if TrimSpace (in_Markdown inp) = [] then Inl MarkdownRequired
      else
        let (fm, body) = splitFrontmatter e (in_Markdown inp);
            title = fall_back fm ''title'' title0;
            author = fall_back fm ''author'' author0;
            language0 = fall_back fm ''language'' (in_Language inp);
            sourceURL = fall_back fm ''sourceUrl'' (in_SourceURL inp);
            language = (if language0 = [] then ''en-GB'' else language0);
            rights = (case in_Rights inp of None \<Rightarrow> Map.empty | Some r \<Rightarrow> r)
        in
        (case render e body of
           None \<Rightarrow> Inl RenderFailed
         | Some fullHTML \<Rightarrow>
             Inr \<lparr>Slug = slug, Title = title, Author = author, Language = language,
                  Source = source_of sourceURL, Rights = rights,
                  Frontmatter =
                    merge_frontmatter (explicit_frontmatter title author language sourceURL) fm,
                  Markdown = body, RenderedHTML = fullHTML,
                  ContentHash = sha256_hex e body,
                  Segments = segment_blocks e body 1 0 0 (goldmark_parse e body)\<rparr>))"

section \<open>The store\<close>

text \<open>
  The tables the admin operations read and write, with the columns they use. A \<open>uuid\<close>
  column holds a \<open>uuid\<close>; \<open>gen_random_uuid()\<close> is the counter \<open>next_uuid\<close>, so that a new
  row's id is one no row has. The \<open>jsonb\<close> columns hold the map that was marshalled into
  them. The time stamps (\<open>created_at\<close>, \<open>updated_at\<close>) are left out, and so is the range
  of the \<open>INT\<close> columns. A statement fails where the schema's unique constraints reject
  it, or where a text parameter is not a uuid; a connection that breaks or a deadline
  that passes is not modelled.
\<close>

record story_row =
  s_id :: uuid
  s_account_id :: uuid
  s_slug :: string
  s_title :: string
  s_author :: "string option"
  s_language :: string
  s_source :: "string \<rightharpoonup> any"
  s_rights :: "string \<rightharpoonup> any"
  is_published :: bool
  published_version_id :: "uuid option"
  draft_version_id :: "uuid option"

record version_row =
  v_id :: uuid
  v_story_id :: uuid
  version :: int
  v_frontmatter :: "string \<rightharpoonup> any"
  v_markdown :: string
  v_rendered_html :: string
  content_hash :: string

record section_row =
  sec_id :: uuid
  sec_story_version_id :: uuid
  sec_kind :: string
  sec_title :: "string option"
  sec_ordinal :: int

record segment_row =
  sg_id :: uuid
  sg_story_version_id :: uuid
  section_id :: "uuid option"
  sg_ordinal :: int
  sg_locator :: json
  sg_markdown :: string
  sg_rendered_html :: string
  word_count :: int

record contributor_row =
  c_id :: uuid
  c_name :: string

record story_contributor_row =
  sc_story_id :: uuid
  sc_contributor_id :: uuid
  sc_role :: string

record db =
  stories :: "story_row list"
  story_versions :: "version_row list"
  story_sections :: "section_row list"
  story_segments :: "segment_row list"
  contributors :: "contributor_row list"
  story_contributors :: "story_contributor_row list"
  next_uuid :: uuid

record AdminDraftUpsertRequest =
  req_Slug :: string
  req_Title :: string
  req_Author :: "string option"
  req_Markdown :: string
  req_Language :: "string option"
  req_SourceURL :: "string option"
  req_Rights :: "(string \<rightharpoonup> any) option"

record AdminDraftUpsertResponse =
  StoryID :: uuid
  StoryVersionID :: uuid
  resp_Slug :: string
  Version :: int
  SegmentsCount :: int
  resp_RenderedHTML :: string

record AdminSegment =
  as_Ordinal :: int
  as_Locator :: json
  as_RenderedHTML :: string

record AdminPreviewResponse =
  pv_RenderedHTML :: string
  pv_Segments :: "AdminSegment list"

subsection \<open>The statements\<close>

text \<open>\<open>NULLIF(BTRIM(a), '')\<close>: \<open>BTRIM\<close> removes the spaces at both ends.\<close>

definition btrim :: "string \<Rightarrow> string" where
  "btrim a = rev (dropWhile (\<lambda>c. c = CHR 0x20) (rev (dropWhile (\<lambda>c. c = CHR 0x20) a)))"

definition nullif_btrim :: "string \<Rightarrow> string option" where
  "nullif_btrim a = (if btrim a = [] then None else Some (btrim a))"

text \<open>\<open>INSERT INTO stories ... ON CONFLICT (account_id, slug) DO UPDATE SET ... RETURNING id\<close>.\<close>

definition upsert_story :: "db \<Rightarrow> uuid \<Rightarrow> Output \<Rightarrow> uuid \<times> db" where
  "upsert_story st acct ing =
     (case find (\<lambda>r. s_account_id r = acct \<and> s_slug r = Slug ing) (stories st) of
        Some r0 \<Rightarrow>
          (s_id r0,
           st\<lparr>stories :=
                map (\<lambda>r. if s_account_id r = acct \<and> s_slug r = Slug ing
                          then r\<lparr>s_title := Title ing, s_author := nullif_btrim (Author ing),
                                 s_language := Language ing, s_source := Source ing,
                                 s_rights := Rights ing\<rparr>
                          else r)
                    (stories st)\<rparr>)
      | None \<Rightarrow>
          (next_uuid st,
           st\<lparr>stories :=
                stories st @
                [\<lparr>s_id = next_uuid st, s_account_id = acct, s_slug = Slug ing,
                  s_title = Title ing, s_author = nullif_btrim (Author ing),
                  s_language = Language ing, s_source = Source ing, s_rights = Rights ing,
                  is_published = False, published_version_id = None,
                  draft_version_id = None\<rparr>],
              next_uuid := Suc (next_uuid st)\<rparr>))"

text \<open>\<open>SELECT id, version, rendered_html FROM story_versions WHERE story_id = $1 AND content_hash = $2 LIMIT 1\<close>.\<close>

definition select_version_by_hash :: "db \<Rightarrow> uuid \<Rightarrow> string \<Rightarrow> version_row option" where
  "select_version_by_hash st sid h =
     find (\<lambda>v. v_story_id v = sid \<and> content_hash v = h) (story_versions st)"

text \<open>\<open>UPDATE stories SET draft_version_id=$2, updated_at=now() WHERE id=$1\<close>.\<close>

definition update_draft :: "db \<Rightarrow> uuid \<Rightarrow> uuid \<Rightarrow> db" where
  "update_draft st sid vid =
     st\<lparr>stories := map (\<lambda>r. if s_id r = sid then r\<lparr>draft_version_id := Some vid\<rparr> else r) (stories st)\<rparr>"

text \<open>\<open>INSERT INTO contributors (name) VALUES ($1) ON CONFLICT (name) DO UPDATE SET name = EXCLUDED.name RETURNING id\<close>.\<close>

definition upsert_contributor :: "db \<Rightarrow> string \<Rightarrow> uuid \<times> db" where
  "upsert_contributor st a =
     (case find (\<lambda>c. c_name c = a) (contributors st) of
        Some c \<Rightarrow> (c_id c, st)
      | None \<Rightarrow>
          (next_uuid st,
           st\<lparr>contributors := contributors st @ [\<lparr>c_id = next_uuid st, c_name = a\<rparr>],
              next_uuid := Suc (next_uuid st)\<rparr>))"

text \<open>\<open>INSERT INTO story_contributors (story_id, contributor_id, role) VALUES ($1,$2,'author') ON CONFLICT DO NOTHING\<close>.\<close>

definition insert_story_contributor :: "db \<Rightarrow> uuid \<Rightarrow> uuid \<Rightarrow> db" where
  "insert_story_contributor st sid cid =
     (if \<exists>l \<in> set (story_contributors st).
           sc_story_id l = sid \<and> sc_contributor_id l = cid \<and> sc_role l = ''author''
      then st
      else st\<lparr>story_contributors :=
                story_contributors st @
                [\<lparr>sc_story_id = sid, sc_contributor_id = cid, sc_role = ''author''\<rparr>]\<rparr>)"

text \<open>The contributor link, the same on both paths of the upsert.\<close>

definition link_author :: "db \<Rightarrow> uuid \<Rightarrow> string \<Rightarrow> db" where
  "link_author st sid a =
     (if TrimSpace a \<noteq> [] then
        (let (cid, st1) = upsert_contributor st a in insert_story_contributor st1 sid cid)
      else st)"

text \<open>\<open>SELECT COALESCE(MAX(version), 0) + 1 FROM story_versions WHERE story_id = $1\<close>.\<close>

definition next_version :: "db \<Rightarrow> uuid \<Rightarrow> int" where
  "next_version st sid =
     (case map version (filter (\<lambda>v. v_story_id v = sid) (story_versions st)) of
        [] \<Rightarrow> 0
      | x # xs \<Rightarrow> fold max xs x) + 1"

text \<open>
  \<open>INSERT INTO story_versions (...) VALUES (...) RETURNING id\<close>, under
  \<open>UNIQUE(story_id, version)\<close> and \<open>UNIQUE(story_id, content_hash)\<close>.
\<close>

definition insert_version :: "db \<Rightarrow> uuid \<Rightarrow> int \<Rightarrow> Output \<Rightarrow> err + (uuid \<times> db)" where
  "insert_version st sid n ing =
     (if \<exists>v \<in> set (story_versions st).
           v_story_id v = sid \<and> (version v = n \<or> content_hash v = ContentHash ing)
      then Inl UniqueViolation
      else Inr (next_uuid st,
                st\<lparr>story_versions :=
                     story_versions st @
                     [\<lparr>v_id = next_uuid st, v_story_id = sid, version = n,
                       v_frontmatter = Frontmatter ing, v_markdown = Markdown ing,
                       v_rendered_html = RenderedHTML ing, content_hash = ContentHash ing\<rparr>],
                   next_uuid := Suc (next_uuid st)\<rparr>))"

text \<open>
  \<open>INSERT INTO story_sections (story_version_id, kind, title, ordinal) VALUES (...) RETURNING id\<close>,
  under \<open>UNIQUE(story_version_id, ordinal)\<close>.
\<close>

definition insert_section :: "db \<Rightarrow> uuid \<Rightarrow> string \<Rightarrow> string option \<Rightarrow> int \<Rightarrow> err + (uuid \<times> db)" where
  "insert_section st vid kind title_opt ord =
     (if \<exists>s \<in> set (story_sections st). sec_story_version_id s = vid \<and> sec_ordinal s = ord
      then Inl UniqueViolation
      else Inr (next_uuid st,
                st\<lparr>story_sections :=
                     story_sections st @
                     [\<lparr>sec_id = next_uuid st, sec_story_version_id = vid, sec_kind = kind,
                       sec_title = title_opt, sec_ordinal = ord\<rparr>],
                   next_uuid := Suc (next_uuid st)\<rparr>))"

text \<open>
  \<open>INSERT INTO story_segments (story_version_id, section_id, ordinal, locator, markdown, rendered_html, word_count)\<close>,
  under \<open>UNIQUE(story_version_id, ordinal)\<close>.
\<close>

definition insert_segment :: "db \<Rightarrow> uuid \<Rightarrow> uuid option \<Rightarrow> Segment \<Rightarrow> err + db" where
  "insert_segment st vid sectionArg sg =
     (if \<exists>r \<in> set (story_segments st). sg_story_version_id r = vid \<and> sg_ordinal r = Ordinal sg
      then Inl UniqueViolation
      else Inr (st\<lparr>story_segments :=
                     story_segments st @
                     [\<lparr>sg_id = next_uuid st, sg_story_version_id = vid, section_id = sectionArg,
                       sg_ordinal = Ordinal sg, sg_locator = Locator sg,
                       sg_markdown = seg_Markdown sg, sg_rendered_html = seg_RenderedHTML sg,
                       word_count = WordCount sg\<rparr>],
                   next_uuid := Suc (next_uuid st)\<rparr>))"

subsection \<open>Chapters\<close>

record headingLoc =
  hl_Type :: string
  hl_H :: int
  hl_Index :: int

definition lower_ascii :: "string \<Rightarrow> string" where
  "lower_ascii s = map (\<lambda>c. if 65 \<le> byte c \<and> byte c \<le> 90 then char_of (byte c + 32) else c) s"

text \<open>
  \<open>json.Unmarshal(seg.Locator, &loc)\<close>: the keys of the object are matched with the three
  fields without regard to case; a value of the wrong type leaves the field as it is and
  makes the call return an error (the flag is then \<open>False\<close>).
\<close>

fun set_field :: "headingLoc \<times> bool \<Rightarrow> string \<times> json \<Rightarrow> headingLoc \<times> bool" where
  "set_field (loc, ok) (k, v) =
     (if lower_ascii k = ''type'' then
        (case v of JString x \<Rightarrow> (loc\<lparr>hl_Type := x\<rparr>, ok) | _ \<Rightarrow> (loc, False))
      else if lower_ascii k = ''h'' then
        (case v of JNumber x \<Rightarrow> (loc\<lparr>hl_H := x\<rparr>, ok) | _ \<Rightarrow> (loc, False))
      else if lower_ascii k = ''index'' then
        (case v of JNumber x \<Rightarrow> (loc\<lparr>hl_Index := x\<rparr>, ok) | _ \<Rightarrow> (loc, False))
      else (loc, ok))"

definition unmarshal_headingLoc :: "json \<Rightarrow> headingLoc \<times> bool" where
  "unmarshal_headingLoc j =
     (case j of
        JObject kvs \<Rightarrow> foldl set_field (\<lparr>hl_Type = [], hl_H = 0, hl_Index = 0\<rparr>, True) kvs
      | _ \<Rightarrow> (\<lparr>hl_Type = [], hl_H = 0, hl_Index = 0\<rparr>, False))"

definition headingText :: "string \<Rightarrow> string" where
  "headingText md = TrimSpace (TrimLeft_hash (TrimSpace md))"

text \<open>\<open>%d\<close> of a natural number.\<close>

fun decimal :: "nat \<Rightarrow> string" where
  "decimal n = (if n < 10 then [char_of (48 + n)] else decimal (n div 10) @ [char_of (48 + n mod 10)])"

declare decimal.simps [simp del]

record chapter_t =
  StartSegOrdinal :: int
  ch_Title :: string
  SectionOrdinal :: int

text \<open>The first loop over the segments: every level-2 heading opens a chapter.\<close>

fun collect_chapters :: "chapter_t list \<Rightarrow> Segment list \<Rightarrow> chapter_t list" where
  "collect_chapters chapters [] = chapters"
| "collect_chapters chapters (sg # sgs) =
     (let (loc, ok) = unmarshal_headingLoc (Locator sg) in
      if \<not> ok then collect_chapters chapters sgs
      else if hl_Type loc = ''heading'' \<and> hl_H loc = 2 then
        (let t0 = headingText (seg_Markdown sg);
             t = (if TrimSpace t0 = [] then ''Chapter '' @ decimal (length chapters + 1) else t0)
         in collect_chapters
              (chapters @ [\<lparr>StartSegOrdinal = Ordinal sg, ch_Title = t,
                             SectionOrdinal = int (length chapters) + 1\<rparr>]) sgs)
      else collect_chapters chapters sgs)"

text \<open>The loop that inserts one section for each chapter and fills \<open>sectionIDByStart\<close>.\<close>

fun insert_chapter_sections ::
  "db \<Rightarrow> uuid \<Rightarrow> (int \<rightharpoonup> uuid) \<Rightarrow> chapter_t list \<Rightarrow> err + ((int \<rightharpoonup> uuid) \<times> db)" where
  "insert_chapter_sections st vid byStart [] = Inr (byStart, st)"
| "insert_chapter_sections st vid byStart (ch # chs) =
     (case insert_section st vid ''chapter'' (Some (ch_Title ch)) (SectionOrdinal ch) of
        Inl er \<Rightarrow> Inl er
      | Inr (secID, st1) \<Rightarrow>
          insert_chapter_sections st1 vid (byStart(StartSegOrdinal ch \<mapsto> secID)) chs)"

definition insert_sections ::
  "db \<Rightarrow> uuid \<Rightarrow> chapter_t list \<Rightarrow> err + ((int \<rightharpoonup> uuid) \<times> db)" where
  "insert_sections st vid chapters =
     (if chapters = [] then
        (case insert_section st vid ''section'' None 1 of
           Inl er \<Rightarrow> Inl er
         | Inr (sectionID, st1) \<Rightarrow> Inr ([1 \<mapsto> sectionID], st1))
      else insert_chapter_sections st vid Map.empty chapters)"

text \<open>
  The section of one segment in a story with chapters, and \<open>currentChapterID\<close> after it
  (\<open>None\<close> for the empty string): a level-1 heading stays without a section, a level-2
  heading takes the section that starts at its ordinal, and any other segment goes to the
  current chapter.
\<close>

definition assign_section ::
  "(int \<rightharpoonup> uuid) \<Rightarrow> uuid option \<Rightarrow> Segment \<Rightarrow> uuid option \<times> uuid option" where
  "assign_section byStart cur sg =
     (let loc = fst (unmarshal_headingLoc (Locator sg)) in
      if hl_Type loc = ''heading'' \<and> hl_H loc = 1 then (None, cur)
      else if hl_Type loc = ''heading'' \<and> hl_H loc = 2 then
        (case byStart (Ordinal sg) of Some i \<Rightarrow> (Some i, Some i) | None \<Rightarrow> (None, cur))
      else if cur \<noteq> None then (cur, cur)
      else (None, cur))"

text \<open>
  The second loop: the section of each segment, and the insert. A key missing from
  \<open>sectionIDByStart\<close> reads as the empty string, which is not a uuid.
\<close>

fun insert_segments ::
  "db \<Rightarrow> uuid \<Rightarrow> bool \<Rightarrow> (int \<rightharpoonup> uuid) \<Rightarrow> uuid option \<Rightarrow> Segment list \<Rightarrow> err + db" where
  "insert_segments st vid no_chapters byStart cur [] = Inr st"
| "insert_segments st vid no_chapters byStart cur (sg # sgs) =
     (if no_chapters then
        (case byStart 1 of
           None \<Rightarrow> Inl InvalidUUID
         | Some sid1 \<Rightarrow>
             (case insert_segment st vid (Some sid1) sg of
                Inl er \<Rightarrow> Inl er
              | Inr st1 \<Rightarrow> insert_segments st1 vid no_chapters byStart cur sgs))
      else
        (case insert_segment st vid (fst (assign_section byStart cur sg)) sg of
           Inl er \<Rightarrow> Inl er
         | Inr st1 \<Rightarrow>
             insert_segments st1 vid no_chapters byStart (snd (assign_section byStart cur sg)) sgs))"

subsection \<open>The admin operations\<close>

definition AdminPreview :: "env \<Rightarrow> string \<Rightarrow> err + AdminPreviewResponse" where
  "AdminPreview e markdown =
     (case Ingest e \<lparr>in_Slug = ''preview'', in_Title = ''Preview'', in_Author = [],
                      in_Markdown = markdown, in_Language = ''en-GB'', in_SourceURL = [],
                      in_Rights = None\<rparr> of
        Inl er \<Rightarrow> Inl er
      | Inr out \<Rightarrow>
          Inr \<lparr>pv_RenderedHTML = RenderedHTML out,
               pv_Segments =
                 map (\<lambda>sg. \<lparr>as_Ordinal = Ordinal sg, as_Locator = Locator sg,
                             as_RenderedHTML = seg_RenderedHTML sg\<rparr>)
                     (Segments out)\<rparr>)"

text \<open>The \<open>storyingest.Input\<close> that \<open>AdminDraftUpsert\<close> builds from its request.\<close>

definition request_input :: "AdminDraftUpsertRequest \<Rightarrow> Input" where
  "request_input req =
     \<lparr>in_Slug = TrimSpace (req_Slug req),
      in_Title = TrimSpace (req_Title req),
      in_Author = (case req_Author req of None \<Rightarrow> [] | Some a \<Rightarrow> TrimSpace a),
      in_Markdown = req_Markdown req,
      in_Language =
        (case req_Language req of
           None \<Rightarrow> ''en-GB''
         | Some l \<Rightarrow> if TrimSpace l \<noteq> [] then TrimSpace l else ''en-GB''),
      in_SourceURL = (case req_SourceURL req of None \<Rightarrow> [] | Some u \<Rightarrow> TrimSpace u),
      in_Rights = req_Rights req\<rparr>"

text \<open>
  The statements of \<open>AdminDraftUpsert\<close> between \<open>BeginTx\<close> and \<open>Commit\<close>. The id a
  \<open>RETURNING id\<close> gives is the text of a uuid, never blank.
\<close>

definition draft_tx :: "env \<Rightarrow> db \<Rightarrow> string \<Rightarrow> Output \<Rightarrow> err + (AdminDraftUpsertResponse \<times> db)" where
  "draft_tx e st accountID ing =
     (case pg_uuid_in e accountID of
        None \<Rightarrow> Inl InvalidUUID
      | Some acct \<Rightarrow>
          let (storyID, st1) = upsert_story st acct ing in
          (case select_version_by_hash st1 storyID (ContentHash ing) of
             Some existing \<Rightarrow>
               let st2 = update_draft st1 storyID (v_id existing);
                   st3 = link_author st2 storyID (Author ing)
               in Inr (\<lparr>StoryID = storyID, StoryVersionID = v_id existing,
                        resp_Slug = Slug ing, Version = version existing,
                        SegmentsCount = int (length (Segments ing)),
                        resp_RenderedHTML = v_rendered_html existing\<rparr>, st3)
           | None \<Rightarrow>
               let nextVersion = next_version st1 storyID in
               (case insert_version st1 storyID nextVersion ing of
                  Inl er \<Rightarrow> Inl er
                | Inr (versionID, st2) \<Rightarrow>
                    let chapters = collect_chapters [] (Segments ing) in
                    (case insert_sections st2 versionID chapters of
                       Inl er \<Rightarrow> Inl er
                     | Inr (byStart, st3) \<Rightarrow>
                         (case insert_segments st3 versionID (chapters = []) byStart None
                                 (Segments ing) of
                            Inl er \<Rightarrow> Inl er
                          | Inr st4 \<Rightarrow>
                              let st5 = update_draft st4 storyID versionID;
                                  st6 = link_author st5 storyID (Author ing)
                              in Inr (\<lparr>StoryID = storyID, StoryVersionID = versionID,
                                       resp_Slug = Slug ing, Version = nextVersion,
                                       SegmentsCount = int (length (Segments ing)),
                                       resp_RenderedHTML = RenderedHTML ing\<rparr>, st6))))))"

text \<open>
  \<open>AdminDraftUpsert\<close>: the result and the database after the call. An error inside the
  transaction rolls it back, and the database is the one before the call.
\<close>

definition AdminDraftUpsert ::
  "env \<Rightarrow> db \<Rightarrow> string \<Rightarrow> AdminDraftUpsertRequest \<Rightarrow> (err + AdminDraftUpsertResponse) \<times> db" where
  "AdminDraftUpsert e st accountID req =
     (if TrimSpace accountID = [] then (Inl AccountRequired, st)
      else
        (case Ingest e (request_input req) of
           Inl er \<Rightarrow> (Inl er, st)
         | Inr ing \<Rightarrow>
             (case draft_tx e st (TrimSpace accountID) ing of
                Inl er \<Rightarrow> (Inl er, st)
              | Inr (resp, st') \<Rightarrow> (Inr resp, st'))))"

text \<open>\<open>AdminPublish\<close>: its error (\<open>None\<close> for \<open>nil\<close>) and the database after the call; it runs its three statements outside any transaction.\<close>

definition AdminPublish :: "env \<Rightarrow> db \<Rightarrow> string \<Rightarrow> string \<Rightarrow> string \<Rightarrow> err option \<times> db" where
  "AdminPublish e st accountID0 slug0 versionID0 =
     (let accountID = TrimSpace accountID0;
          slug = TrimSpace slug0;
          versionID = TrimSpace versionID0
      in
      if accountID = [] \<or> slug = [] \<or> versionID = [] then (Some PublishArgsRequired, st)
      else
        (case pg_uuid_in e accountID of
           None \<Rightarrow> (Some InvalidUUID, st)
         | Some acct \<Rightarrow>
             (case find (\<lambda>r. s_account_id r = acct \<and> s_slug r = slug) (stories st) of
                None \<Rightarrow> (Some ErrNoRows, st)
              | Some r0 \<Rightarrow>
                  (case pg_uuid_in e versionID of
                     None \<Rightarrow> (Some InvalidUUID, st)
                   | Some vid \<Rightarrow>
                       (case find (\<lambda>v. v_id v = vid \<and> v_story_id v = s_id r0) (story_versions st) of
                          None \<Rightarrow> (Some ErrNoRows, st)
                        | Some ok \<Rightarrow>
                            (None,
                             st\<lparr>stories :=
                                  map (\<lambda>r. if s_id r = s_id r0
                                            then r\<lparr>published_version_id := Some vid,
                                                   is_published := True\<rparr>
                                            else r)
                                      (stories st)\<rparr>))))))"

section \<open>What the claims speak of\<close>

subsection \<open>Segments and their blocks\<close>

fun is_Heading :: "node \<Rightarrow> bool" where
  "is_Heading (Heading l ls ks) = True"
| "is_Heading n = False"

fun is_Paragraph :: "node \<Rightarrow> bool" where
  "is_Paragraph (Paragraph ls ks) = True"
| "is_Paragraph n = False"

text \<open>
  The branch of the loop of \<open>Ingest\<close> that appends a segment, as the code has it: the
  heading and the paragraph branch always do, the default branch does unless
  \<open>extractBlockSource\<close> gives it a blank text. The proofs count the segments with it; the
  claims are not stated with it.
\<close>

definition loop_keeps :: "string \<Rightarrow> node \<Rightarrow> bool" where
  "loop_keeps src n =
     (is_Heading n \<or> is_Paragraph n \<or> TrimSpace (extractBlockSource src n) \<noteq> [])"

text \<open>
  The locator of the \<open>i\<close>-th of the blocks \<open>kept\<close>, told from the blocks before it: a
  heading carries its level and the number of headings before it, a paragraph one more
  than the number of paragraphs before it, any other block the name of its type. The
  counts start from \<open>paraN\<close> and \<open>headIdx\<close>.
\<close>

definition locator_from :: "int \<Rightarrow> int \<Rightarrow> node list \<Rightarrow> nat \<Rightarrow> json" where
  "locator_from paraN headIdx kept i =
     (case kept ! i of
        Heading level ls ks \<Rightarrow>
          JObject [(''h'', JNumber level),
                   (''index'', JNumber (headIdx + int (length (filter is_Heading (take i kept))))),
                   (''type'', JString ''heading'')]
      | Paragraph ls ks \<Rightarrow>
          JObject [(''n'', JNumber (paraN + int (length (filter is_Paragraph (take i kept))) + 1)),
                   (''type'', JString ''para'')]
      | n \<Rightarrow> JObject [(''kind'', JString (type_name n)), (''type'', JString ''block'')])"

subsection \<open>The store\<close>

text \<open>
  The schema's constraints on a database, as far as the admin operations rely on them: the
  primary keys, \<open>UNIQUE(account_id, slug)\<close> on stories, \<open>UNIQUE(story_id, version)\<close> and
  \<open>UNIQUE(story_id, content_hash)\<close> on versions; and every id in use lies below the
  counter, so that the next id is a new one.
\<close>

definition db_ok :: "db \<Rightarrow> bool" where
  "db_ok st =
     (distinct (map s_id (stories st))
      \<and> distinct (map (\<lambda>r. (s_account_id r, s_slug r)) (stories st))
      \<and> distinct (map v_id (story_versions st))
      \<and> distinct (map (\<lambda>v. (v_story_id v, version v)) (story_versions st))
      \<and> distinct (map (\<lambda>v. (v_story_id v, content_hash v)) (story_versions st))
      \<and> list_all (\<lambda>r. s_id r < next_uuid st) (stories st)
      \<and> list_all (\<lambda>v. v_id v < next_uuid st \<and> v_story_id v < next_uuid st) (story_versions st)
      \<and> list_all (\<lambda>s. sec_story_version_id s < next_uuid st) (story_sections st)
      \<and> list_all (\<lambda>g. sg_story_version_id g < next_uuid st) (story_segments st))"

text \<open>The story an account has under a slug, and the versions of that story.\<close>

definition story_lookup :: "db \<Rightarrow> uuid \<Rightarrow> string \<Rightarrow> story_row option" where
  "story_lookup st acct slug = find (\<lambda>r. s_account_id r = acct \<and> s_slug r = slug) (stories st)"

definition versions_of :: "db \<Rightarrow> uuid \<Rightarrow> version_row list" where
  "versions_of st sid = filter (\<lambda>v. v_story_id v = sid) (story_versions st)"

definition story_versions_of :: "db \<Rightarrow> uuid \<Rightarrow> string \<Rightarrow> version_row list" where
  "story_versions_of st acct slug =
     (case story_lookup st acct slug of None \<Rightarrow> [] | Some r \<Rightarrow> versions_of st (s_id r))"

text \<open>The pointers of every story, in the order of the table.\<close>

definition published_pointers :: "db \<Rightarrow> (uuid \<times> uuid option \<times> bool) list" where
  "published_pointers st = map (\<lambda>r. (s_id r, published_version_id r, is_published r)) (stories st)"

definition draft_pointers :: "db \<Rightarrow> (uuid \<times> uuid option) list" where
  "draft_pointers st = map (\<lambda>r. (s_id r, draft_version_id r)) (stories st)"

text \<open>The sections and the segments stored for a version, in the order of their insertion.\<close>

definition sections_of :: "db \<Rightarrow> uuid \<Rightarrow> section_row list" where
  "sections_of st vid = filter (\<lambda>s. sec_story_version_id s = vid) (story_sections st)"

definition segments_of :: "db \<Rightarrow> uuid \<Rightarrow> segment_row list" where
  "segments_of st vid = filter (\<lambda>g. sg_story_version_id g = vid) (story_segments st)"

text \<open>The segments a version has in the store, as the preview shows segments.\<close>

definition stored_segments :: "db \<Rightarrow> uuid \<Rightarrow> AdminSegment list" where
  "stored_segments st vid =
     map (\<lambda>g. \<lparr>as_Ordinal = sg_ordinal g, as_Locator = sg_locator g,
                 as_RenderedHTML = sg_rendered_html g\<rparr>)
         (segments_of st vid)"

subsection \<open>Chapters\<close>

text \<open>A segment whose locator says: heading of level 1, or of level 2.\<close>

definition is_h1 :: "Segment \<Rightarrow> bool" where
  "is_h1 sg =
     (hl_Type (fst (unmarshal_headingLoc (Locator sg))) = ''heading''
      \<and> hl_H (fst (unmarshal_headingLoc (Locator sg))) = 1)"

definition is_h2 :: "Segment \<Rightarrow> bool" where
  "is_h2 sg =
     (hl_Type (fst (unmarshal_headingLoc (Locator sg))) = ''heading''
      \<and> hl_H (fst (unmarshal_headingLoc (Locator sg))) = 2)"

text \<open>The title of the \<open>n\<close>-th chapter, opened by the heading segment \<open>sg\<close>.\<close>

definition chapter_title :: "Segment \<Rightarrow> nat \<Rightarrow> string" where
  "chapter_title sg n =
     (if TrimSpace (headingText (seg_Markdown sg)) = [] then ''Chapter '' @ decimal n
      else headingText (seg_Markdown sg))"

text \<open>
  The chapter that owns the \<open>i\<close>-th segment, by its number from 1, in a version that has
  chapters: none for a level-1 heading and before the first level-2 heading, else the
  chapter of the last level-2 heading at or before the segment.
\<close>

definition chapter_of :: "Segment list \<Rightarrow> nat \<Rightarrow> nat option" where
  "chapter_of sgs i =
     (if is_h1 (sgs ! i) \<or> filter is_h2 (take (Suc i) sgs) = [] then None
      else Some (length (filter is_h2 (take (Suc i) sgs))))"

text \<open>The section argument the second loop computes for each segment, without the inserts.\<close>

fun section_args :: "bool \<Rightarrow> (int \<rightharpoonup> uuid) \<Rightarrow> uuid option \<Rightarrow> Segment list \<Rightarrow> uuid option list" where
  "section_args no_chapters byStart cur [] = []"
| "section_args no_chapters byStart cur (sg # sgs) =
     (if no_chapters then byStart 1 # section_args no_chapters byStart cur sgs
      else fst (assign_section byStart cur sg)
           # section_args no_chapters byStart (snd (assign_section byStart cur sg)) sgs)"

text \<open>The chapter a level-2 heading segment opens, the \<open>j\<close>-th from 0.\<close>

definition chapter_at :: "nat \<Rightarrow> Segment \<Rightarrow> chapter_t" where
  "chapter_at j sg =
     \<lparr>StartSegOrdinal = Ordinal sg, ch_Title = chapter_title sg (Suc j),
      SectionOrdinal = int j + 1\<rparr>"

text \<open>The rows the loop over the chapters inserts.\<close>

definition chapter_row :: "uuid \<Rightarrow> uuid \<times> chapter_t \<Rightarrow> section_row" where
  "chapter_row vid p =
     \<lparr>sec_id = fst p, sec_story_version_id = vid, sec_kind = ''chapter'',
      sec_title = Some (ch_Title (snd p)), sec_ordinal = SectionOrdinal (snd p)\<rparr>"

text \<open>The rows the loop over the segments inserts.\<close>

definition segment_row_of :: "uuid \<Rightarrow> uuid \<times> uuid option \<times> Segment \<Rightarrow> segment_row" where
  "segment_row_of vid p =
     \<lparr>sg_id = fst p, sg_story_version_id = vid, section_id = fst (snd p),
      sg_ordinal = Ordinal (snd (snd p)), sg_locator = Locator (snd (snd p)),
      sg_markdown = seg_Markdown (snd (snd p)), sg_rendered_html = seg_RenderedHTML (snd (snd p)),
      word_count = WordCount (snd (snd p))\<rparr>"

subsection \<open>Runs of ingests\<close>

text \<open>The requests of a list, one after the other, for one account.\<close>

fun upsert_all ::
  "env \<Rightarrow> db \<Rightarrow> string \<Rightarrow> AdminDraftUpsertRequest list \<Rightarrow> (err + AdminDraftUpsertResponse) list \<times> db" where
  "upsert_all e st accountID [] = ([], st)"
| "upsert_all e st accountID (req # reqs) =
     (fst (AdminDraftUpsert e st accountID req)
        # fst (upsert_all e (snd (AdminDraftUpsert e st accountID req)) accountID reqs),
      snd (upsert_all e (snd (AdminDraftUpsert e st accountID req)) accountID reqs))"

text \<open>The content hash \<open>Ingest\<close> gives the manuscript of a request.\<close>

definition request_hash :: "env \<Rightarrow> AdminDraftUpsertRequest \<Rightarrow> string" where
  "request_hash e req = sha256_hex e (snd (splitFrontmatter e (req_Markdown req)))"

text \<open>
  The numbering the specification asks for. The versions a story has are known by their
  content hash and number; a manuscript whose hash is known gets the number it has and
  uses no new one, a manuscript with a new hash gets the greatest number so far plus one
  (1 when there is none) and is known from then on.
\<close>

definition known_versions :: "db \<Rightarrow> uuid \<Rightarrow> string \<Rightarrow> (string \<times> int) list" where
  "known_versions st acct slug =
     map (\<lambda>v. (content_hash v, version v)) (story_versions_of st acct slug)"

definition next_number :: "int list \<Rightarrow> int" where
  "next_number ns = (if ns = [] then 1 else Max (set ns) + 1)"

fun expected_versions :: "(string \<times> int) list \<Rightarrow> string list \<Rightarrow> int list" where
  "expected_versions known [] = []"
| "expected_versions known (h # hs) =
     (case map_of known h of
        Some n \<Rightarrow> n # expected_versions known hs
      | None \<Rightarrow>
          next_number (map snd known)
            # expected_versions (known @ [(h, next_number (map snd known))]) hs)"

section \<open>An environment to run the code in\<close>

text \<open>
  What the libraries give on the manuscripts used in the examples below: goldmark's HTML
  and block nodes, the SHA-256 digests, the YAML of one frontmatter block, and uuids
  written \<open>00000000-0000-0000-0000-00000000000d\<close> for a digit \<open>d\<close>. The theorems hold
  for every environment; the examples run the code in this one.
\<close>

definition fox_md :: string where
  "fox_md = ''# Fox\<newline>\<newline>Once upon a time.''"

definition fox2_md :: string where
  "fox2_md = ''# Fox\<newline>\<newline>Once upon a time, long ago.''"

definition chapters_md :: string where
  "chapters_md = ''## One\<newline>\<newline>Alpha\<newline>\<newline># Aside\<newline>\<newline>##\<newline>\<newline>Beta''"

definition empty_heading_md :: string where
  "empty_heading_md = ''##''"

definition hidden_md :: string where
  "hidden_md = ''##\<newline>\<newline><!-- hidden -->''"

definition blocks_md :: string where
  "blocks_md = ''# T\<newline>\<newline>P1\<newline>\<newline>***\<newline>\<newline><aside>note</aside>\<newline>\<newline>P2''"

definition unclosed_md :: string where
  "unclosed_md = ''---\<newline>title: Fox\<newline>Once upon a time.''"

definition once_md :: string where
  "once_md = ''Once upon a time.''"

definition undelimited_md :: string where
  "undelimited_md = ''title: Fox\<newline>Once upon a time.''"

definition frontmatter_md :: string where
  "frontmatter_md = ''---\<newline>title: Fox\<newline>age: 3\<newline>---\<newline>Once upon a time.''"

definition demo_convert :: "string \<Rightarrow> string option" where
  "demo_convert md =
     (if md = fox_md
        then Some (''<h1 id='' @ [CHR 0x22] @ ''fox'' @ [CHR 0x22] @ ''>Fox</h1>\<newline><p>Once upon a time.</p>\<newline>'')
      else if md = fox2_md
        then Some (''<h1 id='' @ [CHR 0x22] @ ''fox'' @ [CHR 0x22] @ ''>Fox</h1>\<newline><p>Once upon a time, long ago.</p>\<newline>'')
      else if md = chapters_md
        then Some (''<h2 id='' @ [CHR 0x22] @ ''one'' @ [CHR 0x22] @ ''>One</h2>\<newline><p>Alpha</p>\<newline><h1 id='' @ [CHR 0x22] @ ''aside'' @ [CHR 0x22] @ ''>Aside</h1>\<newline><h2 id='' @ [CHR 0x22] @ ''heading'' @ [CHR 0x22] @ ''></h2>\<newline><p>Beta</p>\<newline>'')
      else if md = empty_heading_md
        then Some (''<h2 id='' @ [CHR 0x22] @ ''heading'' @ [CHR 0x22] @ ''></h2>\<newline>'')
      else if md = hidden_md
        then Some (''<h2 id='' @ [CHR 0x22] @ ''heading'' @ [CHR 0x22] @ ''></h2>\<newline><!-- raw HTML omitted -->\<newline>'')
      else if md = ''<!-- hidden -->''
        then Some ''<!-- raw HTML omitted -->\<newline>''
      else if md = blocks_md
        then Some (''<h1 id='' @ [CHR 0x22] @ ''t'' @ [CHR 0x22] @ ''>T</h1>\<newline><p>P1</p>\<newline><hr>\<newline><!-- raw HTML omitted -->\<newline><p>P2</p>\<newline>'')
      else if md = unclosed_md
        then Some ''<hr>\<newline><p>title: Fox\<newline>Once upon a time.</p>\<newline>''
      else if md = once_md
        then Some ''<p>Once upon a time.</p>\<newline>''
      else if md = ''# Fox''
        then Some (''<h1 id='' @ [CHR 0x22] @ ''fox'' @ [CHR 0x22] @ ''>Fox</h1>\<newline>'')
      else if md = ''Once upon a time, long ago.''
        then Some ''<p>Once upon a time, long ago.</p>\<newline>''
      else if md = ''## One''
        then Some (''<h2 id='' @ [CHR 0x22] @ ''one'' @ [CHR 0x22] @ ''>One</h2>\<newline>'')
      else if md = ''Alpha''
        then Some ''<p>Alpha</p>\<newline>''
      else if md = ''# Aside''
        then Some (''<h1 id='' @ [CHR 0x22] @ ''aside'' @ [CHR 0x22] @ ''>Aside</h1>\<newline>'')
      else if md = ''## ''
        then Some (''<h2 id='' @ [CHR 0x22] @ ''heading'' @ [CHR 0x22] @ ''></h2>\<newline>'')
      else if md = ''Beta''
        then Some ''<p>Beta</p>\<newline>''
      else if md = ''# T''
        then Some (''<h1 id='' @ [CHR 0x22] @ ''t'' @ [CHR 0x22] @ ''>T</h1>\<newline>'')
      else if md = ''P1''
        then Some ''<p>P1</p>\<newline>''
      else if md = ''<aside>note</aside>''
        then Some ''<!-- raw HTML omitted -->\<newline>''
      else if md = ''P2''
        then Some ''<p>P2</p>\<newline>''
      else if md = undelimited_md
        then Some ''<p>title: Fox\<newline>Once upon a time.</p>\<newline>''
      else None)"

definition demo_parse :: "string \<Rightarrow> node list" where
  "demo_parse b =
     (if b = fox_md
        then [Heading 1 [(2, 5)] [Text (2, 5)], Paragraph [(7, 24)] [Text (7, 24)]]
      else if b = fox2_md
        then [Heading 1 [(2, 5)] [Text (2, 5)], Paragraph [(7, 34)] [Text (7, 34)]]
      else if b = chapters_md
        then [Heading 2 [(3, 6)] [Text (3, 6)], Paragraph [(8, 13)] [Text (8, 13)],
              Heading 1 [(17, 22)] [Text (17, 22)], Heading 2 [] [],
              Paragraph [(28, 32)] [Text (28, 32)]]
      else if b = empty_heading_md
        then [Heading 2 [] []]
      else if b = hidden_md
        then [Heading 2 [] [], Node ''*ast.HTMLBlock'' [(4, 19)] []]
      else if b = blocks_md
        then [Heading 1 [(2, 3)] [Text (2, 3)], Paragraph [(5, 7)] [Text (5, 7)],
              Node ''*ast.ThematicBreak'' [] [],
              Node ''*ast.HTMLBlock'' [(14, 34)] [],
              Paragraph [(35, 37)] [Text (35, 37)]]
      else if b = unclosed_md
        then [Node ''*ast.ThematicBreak'' [] [],
              Paragraph [(4, 15), (15, 32)] [Text (4, 14), Text (15, 32)]]
      else if b = once_md
        then [Paragraph [(0, 17)] [Text (0, 17)]]
      else if b = undelimited_md
        then [Paragraph [(0, 11), (11, 28)] [Text (0, 10), Text (11, 28)]]
      else [])"

definition demo_sha256 :: "string \<Rightarrow> string" where
  "demo_sha256 b =
     (if b = fox_md
        then ''9e05076195e525eef7e52dd93cdea8dd10b86311094ad4db95b49a4a245333e5''
      else if b = fox2_md
        then ''2bbeccbc8783a9ead0d587ba05086341da35dcbf5709f051435012996a20ccb6''
      else if b = chapters_md
        then ''b00e315f7048477f6a91ae8b8387c276cb520ae47077e4046f0bb9ca54beb761''
      else if b = empty_heading_md
        then ''76a71fbef8a8339fcbcaff8c9aadfb85c834bc3cc0c07069a5ebb2eea3d90d68''
      else if b = hidden_md
        then ''460d1c36de1bed17c5c2db0ed3a29af221553113b6d1b0cd5ae439e9a020b631''
      else if b = blocks_md
        then ''87005f33c1aa43ade16566d1905095df2fb67ad16c19e43ba4d30e6b92b948a4''
      else if b = unclosed_md
        then ''6aa51a2c450a51ec8e1fe2cca5b85304ba6c029018b8f9e96b6c711bdef81684''
      else if b = once_md
        then ''d5b47e113d12a0b03abb0562808b243710b84d997969faaf1d26dccba1ce07f1''
      else if b = undelimited_md
        then ''1e507b33cc89d0185517d10810a45021aabee0f5364e2896934071b112a73ccd''
      else [])"

definition demo_yaml :: "string \<Rightarrow> (string \<rightharpoonup> any)" where
  "demo_yaml fmText =
     (if fmText = ''title: Fox\<newline>age: 3'' then [''title'' \<mapsto> VString ''Fox'', ''age'' \<mapsto> VInt 3]
      else Map.empty)"

definition demo_uuid_in :: "string \<Rightarrow> uuid option" where
  "demo_uuid_in s =
     (if length s = 36 \<and> take 35 s = ''00000000-0000-0000-0000-00000000000''
         \<and> 48 \<le> byte (s ! 35) \<and> byte (s ! 35) \<le> 57
      then Some (byte (s ! 35) - 48) else None)"

definition demo_env :: env where
  "demo_env =
     \<lparr>goldmark_convert = demo_convert, goldmark_parse = demo_parse, sha256_hex = demo_sha256,
      yaml_unmarshal = demo_yaml, pg_uuid_in = demo_uuid_in\<rparr>"

definition empty_db :: db where
  "empty_db =
     \<lparr>stories = [], story_versions = [], story_sections = [], story_segments = [],
      contributors = [], story_contributors = [], next_uuid = 1\<rparr>"

definition demo_account :: string where
  "demo_account = ''00000000-0000-0000-0000-000000000007''"

definition fox_input :: "string \<Rightarrow> Input" where
  "fox_input md =
     \<lparr>in_Slug = ''fox'', in_Title = ''The Fox'', in_Author = [], in_Markdown = md,
      in_Language = ''en-GB'', in_SourceURL = [], in_Rights = None\<rparr>"

definition fox_request :: "string \<Rightarrow> AdminDraftUpsertRequest" where
  "fox_request md =
     \<lparr>req_Slug = ''fox'', req_Title = ''The Fox'', req_Author = Some ''Aesop'', req_Markdown = md,
      req_Language = None, req_SourceURL = None, req_Rights = None\<rparr>"

text \<open>
  A library to run the store in: the fox story ingested once (\<open>demo_db1\<close>), its version
  published (\<open>demo_db2\<close>), an edited manuscript ingested (\<open>demo_db3\<close>), and a second
  story of the same account (\<open>demo_db4\<close>).
\<close>

definition demo_db1 :: db where
  "demo_db1 = snd (AdminDraftUpsert demo_env empty_db demo_account (fox_request fox_md))"

definition fox_v1 :: string where
  "fox_v1 = ''00000000-0000-0000-0000-000000000002''"

definition demo_db2 :: db where
  "demo_db2 = snd (AdminPublish demo_env demo_db1 demo_account ''fox'' fox_v1)"

definition demo_db3 :: db where
  "demo_db3 = snd (AdminDraftUpsert demo_env demo_db2 demo_account (fox_request fox2_md))"

definition hen_request :: AdminDraftUpsertRequest where
  "hen_request =
     \<lparr>req_Slug = ''hen'', req_Title = ''The Hen'', req_Author = None, req_Markdown = once_md,
      req_Language = None, req_SourceURL = None, req_Rights = None\<rparr>"

definition demo_db4 :: db where
  "demo_db4 = snd (AdminDraftUpsert demo_env demo_db2 demo_account hen_request)"

section \<open>The ingest normalizer\<close>

lemma find_closing_None: "find_closing ls i = None \<longleftrightarrow> (\<forall>l \<in> set ls. TrimSpace l \<noteq> ''---'')"
  by (induction ls arbitrary: i) auto

lemma splitFrontmatter_unclosed:
  assumes "\<forall>l \<in> set (drop 1 (Split (TrimLeft_bom_ws md) (CHR 0x0A))). TrimSpace l \<noteq> ''---''"
  shows "splitFrontmatter e md = (Map.empty, md)"
proof -
  have "find_closing (drop 1 (Split (TrimLeft_bom_ws md) (CHR 0x0A))) 1 = None"
    using assms by (simp only: find_closing_None)
  then show ?thesis
    unfolding splitFrontmatter_def Let_def by simp
qed

lemma fall_back_empty: "fall_back Map.empty k cur = cur"
  by (simp add: fall_back_def fm_string_def)

lemma fall_back_explicit: "cur \<noteq> [] \<Longrightarrow> fall_back fm k cur = cur"
  by (simp add: fall_back_def split: option.splits)

lemma Ingest_blank_title: "TrimSpace (in_Title inp) = [] \<Longrightarrow> Ingest e inp = Inl TitleRequired"
  by (simp add: Ingest_def)

text \<open>What an accepted input went through, and what its output holds.\<close>

lemma Ingest_Inr:
  assumes "Ingest e inp = Inr out"
  defines "fm \<equiv> fst (splitFrontmatter e (in_Markdown inp))"
    and "body \<equiv> snd (splitFrontmatter e (in_Markdown inp))"
  shows "TrimSpace (in_Title inp) \<noteq> []"
    and "TrimSpace (in_Slug inp) \<noteq> []"
    and "slugRe_MatchString (TrimSpace (in_Slug inp))"
    and "TrimSpace (in_Markdown inp) \<noteq> []"
    and "render e body = Some (RenderedHTML out)"
    and "Slug out = TrimSpace (in_Slug inp)"
    and "Title out = TrimSpace (in_Title inp)"
    and "Author out = fall_back fm ''author'' (TrimSpace (in_Author inp))"
    and "Markdown out = body"
    and "ContentHash out = sha256_hex e body"
    and "Segments out = segment_blocks e body 1 0 0 (goldmark_parse e body)"
    and "Language out = (if fall_back fm ''language'' (in_Language inp) = [] then ''en-GB''
                         else fall_back fm ''language'' (in_Language inp))"
    and "Source out = source_of (fall_back fm ''sourceUrl'' (in_SourceURL inp))"
    and "Frontmatter out =
           merge_frontmatter
             (explicit_frontmatter (Title out) (Author out) (Language out)
                (fall_back fm ''sourceUrl'' (in_SourceURL inp))) fm"
  using assms(1) unfolding fm_def body_def
  by (auto simp: Ingest_def Let_def ValidateSlug_def fall_back_explicit
           split: if_splits prod.splits option.splits)

text \<open>
  Claim C10. A manuscript that opens with a \<open>---\<close> line and has no later line that is
  \<open>---\<close> once trimmed is taken whole as the body: an input that passes the checks and
  renders is accepted, its markdown is the text as given (opening line and leading white
  space included), the content hash is the digest of that text, the HTML and the segments
  are those of that text, and the frontmatter map holds the caller's fields only. The hash
  is thus the digest of a text that differs from the same text without the opening line.
\<close>

theorem unclosed_frontmatter_is_body:
  assumes delimited: "HasPrefix (TrimLeft_bom_ws (in_Markdown inp)) ''---\<newline>''
                    \<or> HasPrefix (TrimLeft_bom_ws (in_Markdown inp)) (''---'' @ [CHR 0x0D, CHR 0x0A])"
    and unclosed: "\<forall>l \<in> set (drop 1 (Split (TrimLeft_bom_ws (in_Markdown inp)) (CHR 0x0A))).
                     TrimSpace l \<noteq> ''---''"
    and title: "TrimSpace (in_Title inp) \<noteq> []"
    and slug: "slugRe_MatchString (TrimSpace (in_Slug inp))"
    and md: "TrimSpace (in_Markdown inp) \<noteq> []"
    and html: "render e (in_Markdown inp) = Some html"
  shows "Ingest e inp =
     Inr \<lparr>Slug = TrimSpace (in_Slug inp),
          Title = TrimSpace (in_Title inp),
          Author = TrimSpace (in_Author inp),
          Language = (if in_Language inp = [] then ''en-GB'' else in_Language inp),
          Source = (if TrimSpace (in_SourceURL inp) \<noteq> []
                    then [''url'' \<mapsto> VString (TrimSpace (in_SourceURL inp))] else Map.empty),
          Rights = (case in_Rights inp of None \<Rightarrow> Map.empty | Some r \<Rightarrow> r),
          Frontmatter =
            (if TrimSpace (in_SourceURL inp) \<noteq> []
             then [''title'' \<mapsto> VString (TrimSpace (in_Title inp)),
                   ''author'' \<mapsto> VString (TrimSpace (in_Author inp)),
                   ''language'' \<mapsto> VString (if in_Language inp = [] then ''en-GB'' else in_Language inp),
                   ''sourceUrl'' \<mapsto> VString (TrimSpace (in_SourceURL inp))]
             else [''title'' \<mapsto> VString (TrimSpace (in_Title inp)),
                   ''author'' \<mapsto> VString (TrimSpace (in_Author inp)),
                   ''language'' \<mapsto> VString (if in_Language inp = [] then ''en-GB'' else in_Language inp)]),
          Markdown = in_Markdown inp,
          RenderedHTML = html,
          ContentHash = sha256_hex e (in_Markdown inp),
          Segments = segment_blocks e (in_Markdown inp) 1 0 0 (goldmark_parse e (in_Markdown inp))\<rparr>"
proof -
  have nz: "TrimSpace (in_Slug inp) \<noteq> []"
    using slug by (auto simp: slugRe_MatchString_def)
  have split: "splitFrontmatter e (in_Markdown inp) = (Map.empty, in_Markdown inp)"
    by (rule splitFrontmatter_unclosed[OF unclosed])
  have merge: "\<And>m :: string \<rightharpoonup> any. merge_frontmatter m Map.empty = m"
    by (rule ext) (simp add: merge_frontmatter_def split: option.splits)
  show ?thesis
    using title slug md html nz
    by (simp add: Ingest_def split fall_back_empty ValidateSlug_def Let_def merge
          source_of_def explicit_frontmatter_def)
qed

lemma locator_from_Suc:
  "locator_from p h (x # kept) (Suc j) =
   locator_from (p + (if is_Paragraph x then 1 else 0)) (h + (if is_Heading x then 1 else 0)) kept j"
  by (cases "kept ! j") (simp_all add: locator_from_def)

lemma segment_blocks_length:
  "length (segment_blocks e src ord p h ns) = length (filter (loop_keeps src) ns)"
  by (induction e src ord p h ns rule: segment_blocks.induct)
     (simp_all add: loop_keeps_def Let_def)

lemma segment_blocks_nth:
  "i < length (filter (loop_keeps src) ns) \<Longrightarrow>
   Ordinal (segment_blocks e src ord p h ns ! i) = ord + int i
   \<and> Locator (segment_blocks e src ord p h ns ! i) = locator_from p h (filter (loop_keeps src) ns) i"
proof (induction ns arbitrary: i ord p h)
  case Nil
  then show ?case by simp
next
  case (Cons n ns)
  show ?case
  proof (cases "loop_keeps src n")
    case False
    then have "segment_blocks e src ord p h (n # ns) = segment_blocks e src ord p h ns"
      by (cases n) (simp_all add: loop_keeps_def)
    with False Cons show ?thesis by simp
  next
    case True
    obtain sg ord' p' h' where
      step: "segment_blocks e src ord p h (n # ns) = sg # segment_blocks e src ord' p' h' ns"
      and sg: "Ordinal sg = ord" "Locator sg = locator_from p h (n # filter (loop_keeps src) ns) 0"
      and nxt: "ord' = ord + 1" "p' = p + (if is_Paragraph n then 1 else 0)"
               "h' = h + (if is_Heading n then 1 else 0)"
      using True by (cases n) (simp_all add: loop_keeps_def Let_def locator_from_def)
    show ?thesis
    proof (cases i)
      case 0
      with True step sg show ?thesis by simp
    next
      case (Suc j)
      with Cons.prems True have "j < length (filter (loop_keeps src) ns)"
        by simp
      from Cons.IH[OF this, of ord' p' h'] Suc True step nxt show ?thesis
        by (simp add: locator_from_Suc)
    qed
  qed
qed

lemma segment_blocks_ordinals:
  "map Ordinal (segment_blocks e src ord p h ns) =
   map (\<lambda>i. ord + int i) [0..<length (segment_blocks e src ord p h ns)]"
  by (rule nth_equalityI) (simp_all add: segment_blocks_length segment_blocks_nth)

lemma segment_blocks_distinct: "distinct (map Ordinal (segment_blocks e src ord p h ns))"
  by (simp add: segment_blocks_ordinals distinct_map inj_on_def)

lemma segment_blocks_other:
  "i < length (filter (loop_keeps src) ns) \<Longrightarrow>
   \<not> is_Heading (filter (loop_keeps src) ns ! i) \<Longrightarrow>
   \<not> is_Paragraph (filter (loop_keeps src) ns ! i) \<Longrightarrow>
   TrimSpace (seg_Markdown (segment_blocks e src ord p h ns ! i)) \<noteq> []"
proof (induction ns arbitrary: i ord p h)
  case Nil
  then show ?case by simp
next
  case (Cons n ns)
  show ?case
  proof (cases "loop_keeps src n")
    case False
    then have "segment_blocks e src ord p h (n # ns) = segment_blocks e src ord p h ns"
      by (cases n) (simp_all add: loop_keeps_def)
    with False Cons show ?thesis by simp
  next
    case True
    obtain sg ord' p' h' where
      step: "segment_blocks e src ord p h (n # ns) = sg # segment_blocks e src ord' p' h' ns"
      and sg: "\<not> is_Heading n \<Longrightarrow> \<not> is_Paragraph n \<Longrightarrow> TrimSpace (seg_Markdown sg) \<noteq> []"
      using True by (cases n) (simp_all add: loop_keeps_def Let_def)
    show ?thesis
    proof (cases i)
      case 0
      with True step sg Cons.prems show ?thesis by simp
    next
      case (Suc j)
      with Cons.prems True have "j < length (filter (loop_keeps src) ns)"
        "\<not> is_Heading (filter (loop_keeps src) ns ! j)"
        "\<not> is_Paragraph (filter (loop_keeps src) ns ! j)"
        by simp_all
      from Cons.IH[OF this, of ord' p' h'] Suc step show ?thesis
        by simp
    qed
  qed
qed

lemma filter_loop_keeps:
  "filter (\<lambda>n. is_Heading n \<or> is_Paragraph n) (filter (loop_keeps src) ns)
   = filter (\<lambda>n. is_Heading n \<or> is_Paragraph n) ns"
  by (induction ns) (auto simp: loop_keeps_def)

text \<open>
  Claim C6, as amended. For every input that \<open>Ingest\<close> accepts, the ordinals of the
  segments are 1, 2, ... up to their number. The segments stand, one for one and in the
  order of the document, for top-level blocks of the body: the blocks \<open>kept\<close>, a
  subsequence of the blocks that holds every heading and every paragraph, with or without
  visible text. The locator of each segment is told from the kept blocks before it: level
  and 0-based running index for a heading, 1-based running index for a paragraph, the kind
  of the block for any other; and the segment of a block that is neither heading nor
  paragraph never has a blank text. Which of the other blocks are kept is left open.
\<close>

theorem segments_numbered_and_located:
  assumes "Ingest e inp = Inr out"
  shows "map Ordinal (Segments out) = map (\<lambda>i. 1 + int i) [0..<length (Segments out)]
     \<and> (\<exists>kept. subseq kept (goldmark_parse e (Markdown out))
           \<and> filter (\<lambda>n. is_Heading n \<or> is_Paragraph n) kept
               = filter (\<lambda>n. is_Heading n \<or> is_Paragraph n) (goldmark_parse e (Markdown out))
           \<and> length (Segments out) = length kept
           \<and> (\<forall>i < length kept.
                 Locator (Segments out ! i) = locator_from 0 0 kept i
                 \<and> (\<not> is_Heading (kept ! i) \<and> \<not> is_Paragraph (kept ! i)
                      \<longrightarrow> TrimSpace (seg_Markdown (Segments out ! i)) \<noteq> [])))"
proof -
  let ?blocks = "goldmark_parse e (Markdown out)"
  let ?kept = "filter (loop_keeps (Markdown out)) ?blocks"
  have s: "Segments out = segment_blocks e (Markdown out) 1 0 0 ?blocks"
    using Ingest_Inr(9,11)[OF assms] by simp
  have a: "map Ordinal (Segments out) = map (\<lambda>i. 1 + int i) [0..<length (Segments out)]"
    unfolding s by (rule segment_blocks_ordinals)
  have b: "subseq ?kept ?blocks"
    by (rule subseq_filter_left)
  have c: "filter (\<lambda>n. is_Heading n \<or> is_Paragraph n) ?kept
           = filter (\<lambda>n. is_Heading n \<or> is_Paragraph n) ?blocks"
    by (rule filter_loop_keeps)
  have d: "length (Segments out) = length ?kept"
    unfolding s by (rule segment_blocks_length)
  have f: "\<forall>i < length ?kept.
             Locator (Segments out ! i) = locator_from 0 0 ?kept i
             \<and> (\<not> is_Heading (?kept ! i) \<and> \<not> is_Paragraph (?kept ! i)
                  \<longrightarrow> TrimSpace (seg_Markdown (Segments out ! i)) \<noteq> [])"
    unfolding s by (simp add: segment_blocks_nth segment_blocks_other)
  from b c d f have "\<exists>kept. subseq kept ?blocks
           \<and> filter (\<lambda>n. is_Heading n \<or> is_Paragraph n) kept
               = filter (\<lambda>n. is_Heading n \<or> is_Paragraph n) ?blocks
           \<and> length (Segments out) = length kept
           \<and> (\<forall>i < length kept.
                 Locator (Segments out ! i) = locator_from 0 0 kept i
                 \<and> (\<not> is_Heading (kept ! i) \<and> \<not> is_Paragraph (kept ! i)
                      \<longrightarrow> TrimSpace (seg_Markdown (Segments out ! i)) \<noteq> []))"
    by (intro exI[of _ ?kept] conjI)
  with a show ?thesis by (rule conjI)
qed

lemma TrimSpace_Nil: "TrimSpace [] = []"
  by (simp add: TrimSpace_def)

lemma fall_back_nonblank: "TrimSpace cur \<noteq> [] \<Longrightarrow> fall_back fm k cur = cur"
  by (rule fall_back_explicit) (auto simp: TrimSpace_Nil)

text \<open>
  Claim C9, as amended. For every accepted input the frontmatter map has \<open>title\<close>,
  \<open>author\<close> and \<open>language\<close> with the resolved fields. It has \<open>sourceUrl\<close> with the
  trimmed source URL when that is not blank (the value stored under \<open>url\<close> in the source
  map); when it is blank the key is not set by the code and reads as in the frontmatter
  block. Every other key reads as in the block. The caller's own title, author, language
  and source URL win over the block's.
\<close>

theorem frontmatter_merge:
  assumes "Ingest e inp = Inr out"
  shows "Frontmatter out ''title'' = Some (VString (Title out))
     \<and> Frontmatter out ''author'' = Some (VString (Author out))
     \<and> Frontmatter out ''language'' = Some (VString (Language out))
     \<and> (case Source out ''url'' of
           Some u \<Rightarrow> Frontmatter out ''sourceUrl'' = Some u
         | None \<Rightarrow> Frontmatter out ''sourceUrl''
                    = fst (splitFrontmatter e (in_Markdown inp)) ''sourceUrl'')
     \<and> (\<forall>k. k \<noteq> ''title'' \<and> k \<noteq> ''author'' \<and> k \<noteq> ''language'' \<and> k \<noteq> ''sourceUrl''
            \<longrightarrow> Frontmatter out k = fst (splitFrontmatter e (in_Markdown inp)) k)
     \<and> Title out = TrimSpace (in_Title inp)
     \<and> (TrimSpace (in_Author inp) \<noteq> [] \<longrightarrow> Author out = TrimSpace (in_Author inp))
     \<and> (in_Language inp \<noteq> [] \<longrightarrow> Language out = in_Language inp)
     \<and> (TrimSpace (in_SourceURL inp) \<noteq> []
          \<longrightarrow> Source out ''url'' = Some (VString (TrimSpace (in_SourceURL inp))))"
proof -
  note io = Ingest_Inr[OF assms]
  have a: "Frontmatter out ''title'' = Some (VString (Title out))"
    and b: "Frontmatter out ''author'' = Some (VString (Author out))"
    and c: "Frontmatter out ''language'' = Some (VString (Language out))"
    unfolding io(14) by (simp_all add: merge_frontmatter_def explicit_frontmatter_def Let_def)
  have d: "case Source out ''url'' of
           Some u \<Rightarrow> Frontmatter out ''sourceUrl'' = Some u
         | None \<Rightarrow> Frontmatter out ''sourceUrl''
                    = fst (splitFrontmatter e (in_Markdown inp)) ''sourceUrl''"
    unfolding io(13,14)
    by (simp add: merge_frontmatter_def explicit_frontmatter_def source_of_def Let_def)
  have f: "\<forall>k. k \<noteq> ''title'' \<and> k \<noteq> ''author'' \<and> k \<noteq> ''language'' \<and> k \<noteq> ''sourceUrl''
            \<longrightarrow> Frontmatter out k = fst (splitFrontmatter e (in_Markdown inp)) k"
    unfolding io(14) by (simp add: merge_frontmatter_def explicit_frontmatter_def Let_def)
  have g: "TrimSpace (in_Author inp) \<noteq> [] \<longrightarrow> Author out = TrimSpace (in_Author inp)"
    by (simp add: io(8) fall_back_explicit)
  have h: "in_Language inp \<noteq> [] \<longrightarrow> Language out = in_Language inp"
    by (simp add: io(12) fall_back_explicit)
  have i: "TrimSpace (in_SourceURL inp) \<noteq> []
          \<longrightarrow> Source out ''url'' = Some (VString (TrimSpace (in_SourceURL inp)))"
    by (simp add: io(13) fall_back_nonblank source_of_def)
  from a b c d f io(7) g h i show ?thesis by blast
qed

section \<open>The store: what each statement leaves alone\<close>

lemma upsert_story_frame:
  assumes "upsert_story st acct ing = (sid, st1)"
  shows "story_versions st1 = story_versions st"
    and "story_sections st1 = story_sections st"
    and "story_segments st1 = story_segments st"
    and "contributors st1 = contributors st"
    and "story_contributors st1 = story_contributors st"
    and "next_uuid st \<le> next_uuid st1"
  using assms by (auto simp: upsert_story_def split: option.splits)

lemma upsert_story_published:
  assumes "upsert_story st acct ing = (sid, st1)"
  shows "\<exists>new. published_pointers st1 = published_pointers st @ new
               \<and> (\<forall>p \<in> set new. snd p = (None, False))"
proof (cases "find (\<lambda>r. s_account_id r = acct \<and> s_slug r = Slug ing) (stories st)")
  case None
  with assms have "published_pointers st1 = published_pointers st @ [(next_uuid st, None, False)]"
    by (simp add: upsert_story_def published_pointers_def split: prod.splits) auto
  then show ?thesis
    by (intro exI[of _ "[(next_uuid st, None, False)]"]) simp
next
  case (Some r0)
  with assms have "published_pointers st1 = published_pointers st @ []"
    by (simp add: upsert_story_def published_pointers_def o_def split: prod.splits) auto
  then show ?thesis
    by (intro exI[of _ "[]"]) simp
qed

lemma update_draft_frame:
  "story_versions (update_draft st sid vid) = story_versions st"
  "story_sections (update_draft st sid vid) = story_sections st"
  "story_segments (update_draft st sid vid) = story_segments st"
  "contributors (update_draft st sid vid) = contributors st"
  "story_contributors (update_draft st sid vid) = story_contributors st"
  "next_uuid (update_draft st sid vid) = next_uuid st"
  "published_pointers (update_draft st sid vid) = published_pointers st"
  by (simp_all add: update_draft_def published_pointers_def o_def)

lemma link_author_frame:
  "stories (link_author st sid a) = stories st"
  "story_versions (link_author st sid a) = story_versions st"
  "story_sections (link_author st sid a) = story_sections st"
  "story_segments (link_author st sid a) = story_segments st"
  "next_uuid st \<le> next_uuid (link_author st sid a)"
  by (simp_all add: link_author_def upsert_contributor_def insert_story_contributor_def
        split: option.splits prod.splits)

lemma insert_version_frame:
  assumes "insert_version st sid n ing = Inr (vid, st1)"
  shows "stories st1 = stories st"
    and "story_sections st1 = story_sections st"
    and "story_segments st1 = story_segments st"
    and "next_uuid st1 = Suc (next_uuid st)"
    and "vid = next_uuid st"
    and "story_versions st1 = story_versions st @
           [\<lparr>v_id = vid, v_story_id = sid, version = n, v_frontmatter = Frontmatter ing,
             v_markdown = Markdown ing, v_rendered_html = RenderedHTML ing,
             content_hash = ContentHash ing\<rparr>]"
  using assms by (auto simp: insert_version_def split: if_splits)

lemma insert_section_frame:
  assumes "insert_section st vid kind t ord = Inr (secID, st1)"
  shows "stories st1 = stories st"
    and "story_versions st1 = story_versions st"
    and "story_segments st1 = story_segments st"
    and "next_uuid st1 = Suc (next_uuid st)"
    and "secID = next_uuid st"
    and "story_sections st1 = story_sections st @
           [\<lparr>sec_id = secID, sec_story_version_id = vid, sec_kind = kind, sec_title = t,
             sec_ordinal = ord\<rparr>]"
  using assms by (auto simp: insert_section_def split: if_splits)

lemma insert_segment_frame:
  assumes "insert_segment st vid arg sg = Inr st1"
  shows "stories st1 = stories st"
    and "story_versions st1 = story_versions st"
    and "story_sections st1 = story_sections st"
    and "next_uuid st1 = Suc (next_uuid st)"
    and "story_segments st1 = story_segments st @
           [\<lparr>sg_id = next_uuid st, sg_story_version_id = vid, section_id = arg,
             sg_ordinal = Ordinal sg, sg_locator = Locator sg, sg_markdown = seg_Markdown sg,
             sg_rendered_html = seg_RenderedHTML sg, word_count = WordCount sg\<rparr>]"
  using assms by (auto simp: insert_segment_def split: if_splits)

lemma insert_chapter_sections_frame:
  assumes "insert_chapter_sections st vid byStart chs = Inr (byStart', st1)"
  shows "stories st1 = stories st \<and> story_versions st1 = story_versions st
         \<and> story_segments st1 = story_segments st"
  using assms
proof (induction chs arbitrary: st byStart)
  case Nil
  then show ?case by simp
next
  case (Cons ch chs)
  from Cons.prems obtain secID st2 where
    ins: "insert_section st vid ''chapter'' (Some (ch_Title ch)) (SectionOrdinal ch) = Inr (secID, st2)"
    and rest: "insert_chapter_sections st2 vid (byStart(StartSegOrdinal ch \<mapsto> secID)) chs
               = Inr (byStart', st1)"
    by (auto split: sum.splits)
  from Cons.IH[OF rest] insert_section_frame(1,2,3)[OF ins] show ?case by simp
qed

lemma insert_sections_frame:
  assumes "insert_sections st vid chs = Inr (byStart', st1)"
  shows "stories st1 = stories st" "story_versions st1 = story_versions st"
        "story_segments st1 = story_segments st"
  using assms insert_chapter_sections_frame[of st vid Map.empty chs byStart' st1]
  by (auto simp: insert_sections_def split: if_splits sum.splits dest: insert_section_frame(1,2,3))

lemma insert_segments_step:
  assumes "insert_segments st vid nc byStart cur (sg # sgs) = Inr st1"
  obtains arg cur1 st2 where
    "insert_segment st vid arg sg = Inr st2"
    "insert_segments st2 vid nc byStart cur1 sgs = Inr st1"
proof (cases nc)
  case True
  with assms that show ?thesis
    by (cases "byStart 1"; cases "insert_segment st vid (byStart 1) sg") auto
next
  case False
  with assms that show ?thesis
    by (cases "insert_segment st vid (fst (assign_section byStart cur sg)) sg") auto
qed

lemma insert_segments_frame:
  assumes "insert_segments st vid nc byStart cur sgs = Inr st1"
  shows "stories st1 = stories st \<and> story_versions st1 = story_versions st
         \<and> story_sections st1 = story_sections st"
  using assms
proof (induction sgs arbitrary: st cur)
  case Nil
  then show ?case by simp
next
  case (Cons sg sgs)
  from Cons.prems obtain arg cur1 st2 where
    ins: "insert_segment st vid arg sg = Inr st2"
    and rest: "insert_segments st2 vid nc byStart cur1 sgs = Inr st1"
    by (rule insert_segments_step)
  from Cons.IH[OF rest] insert_segment_frame(1,2,3)[OF ins] show ?case by simp
qed


lemma published_pointers_cong: "stories st1 = stories st \<Longrightarrow> published_pointers st1 = published_pointers st"
  by (simp add: published_pointers_def)

text \<open>The two ways through the transaction.\<close>

lemma draft_tx_Inr:
  assumes "draft_tx e st accountID ing = Inr (resp, st')"
  obtains (hit) acct sid st1 existing where
      "pg_uuid_in e accountID = Some acct"
      "upsert_story st acct ing = (sid, st1)"
      "select_version_by_hash st1 sid (ContentHash ing) = Some existing"
      "st' = link_author (update_draft st1 sid (v_id existing)) sid (Author ing)"
      "resp = \<lparr>StoryID = sid, StoryVersionID = v_id existing, resp_Slug = Slug ing,
               Version = version existing, SegmentsCount = int (length (Segments ing)),
               resp_RenderedHTML = v_rendered_html existing\<rparr>"
  | (new) acct sid st1 vid st2 byStart st3 st4 where
      "pg_uuid_in e accountID = Some acct"
      "upsert_story st acct ing = (sid, st1)"
      "select_version_by_hash st1 sid (ContentHash ing) = None"
      "insert_version st1 sid (next_version st1 sid) ing = Inr (vid, st2)"
      "insert_sections st2 vid (collect_chapters [] (Segments ing)) = Inr (byStart, st3)"
      "insert_segments st3 vid (collect_chapters [] (Segments ing) = []) byStart None (Segments ing)
         = Inr st4"
      "st' = link_author (update_draft st4 sid vid) sid (Author ing)"
      "resp = \<lparr>StoryID = sid, StoryVersionID = vid, resp_Slug = Slug ing,
               Version = next_version st1 sid, SegmentsCount = int (length (Segments ing)),
               resp_RenderedHTML = RenderedHTML ing\<rparr>"
proof -
  from assms obtain acct where a: "pg_uuid_in e accountID = Some acct"
    by (cases "pg_uuid_in e accountID") (simp_all add: draft_tx_def)
  obtain sid st1 where u: "upsert_story st acct ing = (sid, st1)"
    by (cases "upsert_story st acct ing")
  show ?thesis
  proof (cases "select_version_by_hash st1 sid (ContentHash ing)")
    case (Some existing)
    with assms a u hit[OF a u Some] show ?thesis
      by (simp add: draft_tx_def Let_def)
  next
    case None
    from assms a u None obtain vid st2 where
      v: "insert_version st1 sid (next_version st1 sid) ing = Inr (vid, st2)"
      by (cases "insert_version st1 sid (next_version st1 sid) ing")
         (auto simp: draft_tx_def Let_def)
    from assms a u None v obtain byStart st3 where
      s: "insert_sections st2 vid (collect_chapters [] (Segments ing)) = Inr (byStart, st3)"
      by (cases "insert_sections st2 vid (collect_chapters [] (Segments ing))")
         (auto simp: draft_tx_def Let_def)
    from assms a u None v s obtain st4 where
      g: "insert_segments st3 vid (collect_chapters [] (Segments ing) = []) byStart None
            (Segments ing) = Inr st4"
      by (cases "insert_segments st3 vid (collect_chapters [] (Segments ing) = []) byStart None
                   (Segments ing)")
         (auto simp: draft_tx_def Let_def)
    from assms a u None v s g new[OF a u None v s g] show ?thesis
      by (simp add: draft_tx_def Let_def)
  qed
qed

lemma draft_tx_published:
  assumes "draft_tx e st accountID ing = Inr (resp, st')"
  shows "\<exists>new. published_pointers st' = published_pointers st @ new
               \<and> (\<forall>p \<in> set new. snd p = (None, False))"
  using assms
proof (cases rule: draft_tx_Inr)
  case (hit acct sid st1 existing)
  have "stories st' = stories (update_draft st1 sid (v_id existing))"
    unfolding hit(4) by (rule link_author_frame(1))
  from published_pointers_cong[OF this] have eq: "published_pointers st' = published_pointers st1"
    by (simp only: update_draft_frame(7))
  from upsert_story_published[OF hit(2)] obtain new where
    "published_pointers st1 = published_pointers st @ new" "\<forall>p \<in> set new. snd p = (None, False)"
    by blast
  then show ?thesis
    unfolding eq by blast
next
  case (new acct sid st1 vid st2 byStart st3 st4)
  have s4: "stories st4 = stories st1"
    using insert_version_frame(1)[OF new(4)] insert_sections_frame(1)[OF new(5)]
      insert_segments_frame[OF new(6)] by simp
  have "stories st' = stories (update_draft st4 sid vid)"
    unfolding new(7) by (rule link_author_frame(1))
  from published_pointers_cong[OF this] have "published_pointers st' = published_pointers st4"
    by (simp only: update_draft_frame(7))
  also have "\<dots> = published_pointers st1"
    using s4 by (rule published_pointers_cong)
  finally have eq: "published_pointers st' = published_pointers st1" .
  from upsert_story_published[OF new(2)] obtain new' where
    "published_pointers st1 = published_pointers st @ new'" "\<forall>p \<in> set new'. snd p = (None, False)"
    by blast
  then show ?thesis
    unfolding eq by blast
qed

text \<open>
  Claim C8. Whatever \<open>AdminDraftUpsert\<close> returns, the published pointer and the
  published flag of every story are after the call what they were before it; a story the
  call creates has no published version. (The draft pointer is what the call writes.)
\<close>

theorem upsert_keeps_published:
  assumes "AdminDraftUpsert e st accountID req = (res, st')"
  shows "\<exists>new. published_pointers st' = published_pointers st @ new
               \<and> (\<forall>p \<in> set new. snd p = (None, False))"
proof (cases res)
  case (Inl er)
  with assms have "st' = st"
    by (auto simp: AdminDraftUpsert_def split: if_splits sum.splits)
  then show ?thesis
    by (intro exI[of _ "[]"]) simp
next
  case (Inr resp)
  with assms obtain ing where "draft_tx e st (TrimSpace accountID) ing = Inr (resp, st')"
    by (auto simp: AdminDraftUpsert_def split: if_splits sum.splits)
  then show ?thesis
    by (rule draft_tx_published)
qed

text \<open>
  Claim C4. When the version id given to \<open>AdminPublish\<close> is not the id of a version of a
  story that the account has under the slug, the call returns an error and the database
  is the one before the call.
\<close>

theorem publish_isolation:
  assumes "\<forall>r \<in> set (stories st). \<forall>v \<in> set (story_versions st).
             pg_uuid_in e (TrimSpace accountID) = Some (s_account_id r)
             \<and> s_slug r = TrimSpace slug
             \<and> pg_uuid_in e (TrimSpace versionID) = Some (v_id v)
             \<longrightarrow> v_story_id v \<noteq> s_id r"
  shows "fst (AdminPublish e st accountID slug versionID) \<noteq> None
         \<and> snd (AdminPublish e st accountID slug versionID) = st"
proof -
  have "find (\<lambda>v. v_id v = vid \<and> v_story_id v = s_id r0) (story_versions st) = None"
    if "pg_uuid_in e (TrimSpace accountID) = Some acct"
       "find (\<lambda>r. s_account_id r = acct \<and> s_slug r = TrimSpace slug) (stories st) = Some r0"
       "pg_uuid_in e (TrimSpace versionID) = Some vid" for acct r0 vid
  proof -
    from that(2) have "r0 \<in> set (stories st)" "s_account_id r0 = acct" "s_slug r0 = TrimSpace slug"
      by (auto simp: find_Some_iff)
    with assms that(1,3) show ?thesis
      by (auto simp: find_None_iff)
  qed
  then show ?thesis
    by (auto simp: AdminPublish_def Let_def split: option.splits)
qed


section \<open>The store: an ingest of content the story already has\<close>

lemma find_unique:
  assumes "distinct (map f xs)" "x \<in> set xs" "P x" "\<forall>y \<in> set xs. P y \<longrightarrow> f y = f x"
  shows "find P xs = Some x"
  using assms
proof (induction xs)
  case Nil
  then show ?case by simp
next
  case (Cons a xs)
  show ?case
  proof (cases "P a")
    case True
    with Cons.prems(4) have fa: "f a = f x" by simp
    have "a = x"
    proof (rule ccontr)
      assume "a \<noteq> x"
      with Cons.prems(2) have "x \<in> set xs" by simp
      then have "f x \<in> f ` set xs" by (rule imageI)
      with fa Cons.prems(1) show False by simp
    qed
    with True show ?thesis by simp
  next
    case False
    with Cons.prems(3) have "a \<noteq> x" by auto
    with Cons.prems(2) have x: "x \<in> set xs" by simp
    have d: "distinct (map f xs)" using Cons.prems(1) by simp
    have u: "\<forall>y \<in> set xs. P y \<longrightarrow> f y = f x" using Cons.prems(4) by simp
    from Cons.IH[OF d x Cons.prems(3) u] False show ?thesis by simp
  qed
qed

lemma story_lookup_unique:
  assumes "db_ok st" "r \<in> set (stories st)" "s_account_id r = acct" "s_slug r = slug"
  shows "story_lookup st acct slug = Some r"
  unfolding story_lookup_def
  by (rule find_unique[where f = "\<lambda>r. (s_account_id r, s_slug r)"])
     (use assms in \<open>simp_all add: db_ok_def\<close>)

lemma select_version_unique:
  assumes "db_ok st" "v \<in> set (story_versions st)" "v_story_id v = sid" "content_hash v = h"
  shows "select_version_by_hash st sid h = Some v"
  unfolding select_version_by_hash_def
  by (rule find_unique[where f = "\<lambda>v. (v_story_id v, content_hash v)"])
     (use assms in \<open>simp_all add: db_ok_def\<close>)

lemma upsert_story_existing:
  assumes "story_lookup st acct (Slug ing) = Some r"
  shows "fst (upsert_story st acct ing) = s_id r"
    and "draft_pointers (snd (upsert_story st acct ing)) = draft_pointers st"
  using assms by (simp_all add: upsert_story_def story_lookup_def draft_pointers_def o_def)

lemma update_draft_pointers:
  "draft_pointers (update_draft st sid vid)
   = map (\<lambda>p. if fst p = sid then (fst p, Some vid) else p) (draft_pointers st)"
  by (simp add: update_draft_def draft_pointers_def o_def)

lemma draft_pointers_cong: "stories st1 = stories st \<Longrightarrow> draft_pointers st1 = draft_pointers st"
  by (simp add: draft_pointers_def)

text \<open>
  Claim C1. In a database that meets the schema's constraints, when the story of the
  account and slug has a version whose content hash is that of the manuscript as
  \<open>Ingest\<close> normalizes it, \<open>AdminDraftUpsert\<close> succeeds and returns the id, the number
  and the stored HTML of that version, with the number of freshly computed segments; it
  leaves the tables of versions, sections and segments as they were, and the draft pointer
  of the story is that version afterwards (the other stories keep theirs).
\<close>

theorem upsert_same_content:
  assumes ok: "db_ok st"
    and account: "TrimSpace accountID \<noteq> []" "pg_uuid_in e (TrimSpace accountID) = Some acct"
    and ing: "Ingest e (request_input req) = Inr ing"
    and story: "r \<in> set (stories st)" "s_account_id r = acct" "s_slug r = Slug ing"
    and ver: "v \<in> set (story_versions st)" "v_story_id v = s_id r"
             "content_hash v = ContentHash ing"
  shows "\<exists>st'. AdminDraftUpsert e st accountID req
               = (Inr \<lparr>StoryID = s_id r, StoryVersionID = v_id v, resp_Slug = Slug ing,
                       Version = version v, SegmentsCount = int (length (Segments ing)),
                       resp_RenderedHTML = v_rendered_html v\<rparr>, st')
             \<and> story_versions st' = story_versions st
             \<and> story_sections st' = story_sections st
             \<and> story_segments st' = story_segments st
             \<and> draft_pointers st'
                 = map (\<lambda>p. if fst p = s_id r then (fst p, Some (v_id v)) else p) (draft_pointers st)"
proof -
  obtain sid st1 where u: "upsert_story st acct ing = (sid, st1)"
    by (cases "upsert_story st acct ing")
  have look: "story_lookup st acct (Slug ing) = Some r"
    using ok story by (rule story_lookup_unique)
  have sid: "sid = s_id r" and d1: "draft_pointers st1 = draft_pointers st"
    using upsert_story_existing[OF look] u by simp_all
  note f1 = upsert_story_frame[OF u]
  have ok1: "distinct (map (\<lambda>v. (v_story_id v, content_hash v)) (story_versions st1))"
    using ok f1(1) by (simp add: db_ok_def)
  have sel: "select_version_by_hash st1 sid (ContentHash ing) = Some v"
    unfolding select_version_by_hash_def
    by (rule find_unique[where f = "\<lambda>v. (v_story_id v, content_hash v)"])
       (use ok1 ver sid f1(1) in simp_all)
  define st' where "st' = link_author (update_draft st1 sid (v_id v)) sid (Author ing)"
  have tx: "draft_tx e st (TrimSpace accountID) ing
            = Inr (\<lparr>StoryID = s_id r, StoryVersionID = v_id v, resp_Slug = Slug ing,
                     Version = version v, SegmentsCount = int (length (Segments ing)),
                     resp_RenderedHTML = v_rendered_html v\<rparr>, st')"
    using account(2) u sel sid by (simp add: draft_tx_def Let_def st'_def)
  have run: "AdminDraftUpsert e st accountID req
            = (Inr \<lparr>StoryID = s_id r, StoryVersionID = v_id v, resp_Slug = Slug ing,
                     Version = version v, SegmentsCount = int (length (Segments ing)),
                     resp_RenderedHTML = v_rendered_html v\<rparr>, st')"
    using account(1) ing tx by (simp add: AdminDraftUpsert_def)
  have a: "story_versions st' = story_versions st"
    and b: "story_sections st' = story_sections st"
    and c: "story_segments st' = story_segments st"
    unfolding st'_def by (simp_all add: link_author_frame update_draft_frame f1)
  have "draft_pointers st' = draft_pointers (update_draft st1 sid (v_id v))"
    unfolding st'_def by (rule draft_pointers_cong) (rule link_author_frame(1))
  then have d: "draft_pointers st'
       = map (\<lambda>p. if fst p = s_id r then (fst p, Some (v_id v)) else p) (draft_pointers st)"
    by (simp add: update_draft_pointers d1 sid)
  from run a b c d show ?thesis by blast
qed


section \<open>The store: the constraints are kept\<close>

lemma list_all_less_mono:
  "list_all (\<lambda>x. f x < (n::nat)) xs \<Longrightarrow> n \<le> m \<Longrightarrow> list_all (\<lambda>x. f x < m) xs"
  by (induction xs) auto

lemma find_None_all: "find P xs = None \<Longrightarrow> x \<in> set xs \<Longrightarrow> \<not> P x"
  by (simp add: find_None_iff)

lemma db_ok_upsert_story:
  assumes ok: "db_ok st" and u: "upsert_story st acct ing = (sid, st1)"
  shows "db_ok st1" and "sid < next_uuid st1"
proof -
  show "db_ok st1"
  proof (cases "find (\<lambda>r. s_account_id r = acct \<and> s_slug r = Slug ing) (stories st)")
    case None
    then have fresh: "(acct, Slug ing) \<notin> (\<lambda>r. (s_account_id r, s_slug r)) ` set (stories st)"
      by (auto dest: find_None_all)
    have idf: "next_uuid st \<notin> s_id ` set (stories st)"
      using ok by (auto simp: db_ok_def list_all_iff)
    from None u have st1: "st1 = st\<lparr>stories := stories st @
                [\<lparr>s_id = next_uuid st, s_account_id = acct, s_slug = Slug ing,
                  s_title = Title ing, s_author = nullif_btrim (Author ing),
                  s_language = Language ing, s_source = Source ing, s_rights = Rights ing,
                  is_published = False, published_version_id = None,
                  draft_version_id = None\<rparr>],
              next_uuid := Suc (next_uuid st)\<rparr>"
      by (auto simp: upsert_story_def)
    show ?thesis
      using ok fresh idf unfolding st1 db_ok_def
      by (auto simp: list_all_iff less_Suc_eq)
  next
    case (Some r0)
    define g :: "story_row \<Rightarrow> story_row" where "g = (\<lambda>r. if s_account_id r = acct \<and> s_slug r = Slug ing
                          then r\<lparr>s_title := Title ing, s_author := nullif_btrim (Author ing),
                                 s_language := Language ing, s_source := Source ing,
                                 s_rights := Rights ing\<rparr>
                          else r)"
    have g: "\<And>r. s_id (g r) = s_id r" "\<And>r. s_account_id (g r) = s_account_id r"
            "\<And>r. s_slug (g r) = s_slug r"
      by (simp_all add: g_def)
    from Some u have st1: "st1 = st\<lparr>stories := map g (stories st)\<rparr>"
      by (auto simp: upsert_story_def g_def)
    show ?thesis
      using ok unfolding db_ok_def st1 by (simp add: o_def g list_all_iff)
  qed
  show "sid < next_uuid st1"
  proof (cases "find (\<lambda>r. s_account_id r = acct \<and> s_slug r = Slug ing) (stories st)")
    case None
    with u show ?thesis by (auto simp: upsert_story_def)
  next
    case (Some r0)
    then have "r0 \<in> set (stories st)" by (auto simp: find_Some_iff)
    with ok have "s_id r0 < next_uuid st" by (auto simp: db_ok_def list_all_iff)
    with Some u show ?thesis by (auto simp: upsert_story_def)
  qed
qed

lemma db_ok_update_draft: "db_ok st \<Longrightarrow> db_ok (update_draft st sid vid)"
  unfolding db_ok_def update_draft_def
  by (auto simp: o_def if_distrib list_all_iff cong: if_cong)

lemma db_ok_link_author: "db_ok st \<Longrightarrow> db_ok (link_author st sid a)"
  unfolding db_ok_def link_author_def upsert_contributor_def insert_story_contributor_def
  by (auto simp: list_all_iff less_Suc_eq split: option.splits)

lemma db_ok_insert_version:
  assumes ok: "db_ok st" and sid: "sid < next_uuid st"
    and i: "insert_version st sid n ing = Inr (vid, st1)"
  shows "db_ok st1"
proof -
  from i have guard: "\<forall>v \<in> set (story_versions st).
      v_story_id v = sid \<longrightarrow> version v \<noteq> n \<and> content_hash v \<noteq> ContentHash ing"
    by (auto simp: insert_version_def split: if_splits)
  note f = insert_version_frame[OF i]
  have idf: "next_uuid st \<notin> v_id ` set (story_versions st)"
    using ok by (auto simp: db_ok_def list_all_iff)
  show ?thesis
    using ok sid guard idf unfolding db_ok_def f(1,2,3,4,6) f(5)
    by (auto simp: list_all_iff less_Suc_eq)
qed

lemma db_ok_insert_section:
  assumes "db_ok st" "vid < next_uuid st" "insert_section st vid kind t ord = Inr (secID, st1)"
  shows "db_ok st1"
  using assms(1,2) unfolding db_ok_def insert_section_frame[OF assms(3)]
  by (auto simp: list_all_iff less_Suc_eq)

lemma db_ok_insert_segment:
  assumes "db_ok st" "vid < next_uuid st" "insert_segment st vid arg sg = Inr st1"
  shows "db_ok st1"
  using assms(1,2) unfolding db_ok_def insert_segment_frame[OF assms(3)]
  by (auto simp: list_all_iff less_Suc_eq)


section \<open>The store: the loops over chapters and segments\<close>

lemma collect_chapters_Cons:
  "collect_chapters acc (sg # sgs) =
     (if snd (unmarshal_headingLoc (Locator sg)) \<and> is_h2 sg
      then collect_chapters (acc @ [chapter_at (length acc) sg]) sgs
      else collect_chapters acc sgs)"
  by (cases "unmarshal_headingLoc (Locator sg)")
     (simp add: is_h2_def chapter_title_def chapter_at_def Let_def)

lemma collect_chapters_ordinals:
  assumes "map SectionOrdinal acc = map (\<lambda>j. int j + 1) [0..<length acc]"
  shows "map SectionOrdinal (collect_chapters acc sgs)
         = map (\<lambda>j. int j + 1) [0..<length (collect_chapters acc sgs)]"
  using assms
proof (induction sgs arbitrary: acc)
  case Nil
  then show ?case by simp
next
  case (Cons sg sgs)
  show ?case
  proof (cases "snd (unmarshal_headingLoc (Locator sg)) \<and> is_h2 sg")
    case True
    have "map SectionOrdinal (acc @ [chapter_at (length acc) sg])
          = map (\<lambda>j. int j + 1) [0..<length (acc @ [chapter_at (length acc) sg])]"
      using Cons.prems by (simp add: chapter_at_def)
    moreover from True have "collect_chapters acc (sg # sgs)
                        = collect_chapters (acc @ [chapter_at (length acc) sg]) sgs"
      by (simp add: collect_chapters_Cons del: collect_chapters.simps)
    ultimately show ?thesis
      using Cons.IH[of "acc @ [chapter_at (length acc) sg]"] by simp
  next
    case False
    then have "collect_chapters acc (sg # sgs) = collect_chapters acc sgs"
      by (auto simp add: collect_chapters_Cons simp del: collect_chapters.simps)
    with Cons.IH[OF Cons.prems] show ?thesis
      by simp
  qed
qed

lemma collect_chapters_distinct: "distinct (map SectionOrdinal (collect_chapters [] sgs))"
proof -
  have "map SectionOrdinal (collect_chapters [] sgs)
        = map (\<lambda>j. int j + 1) [0..<length (collect_chapters [] sgs)]"
    by (rule collect_chapters_ordinals) simp
  then show ?thesis
    by (simp add: distinct_map inj_on_def)
qed

text \<open>The chapters are the level-2 headings, when every locator can be read.\<close>

lemma collect_chapters_eq:
  assumes "\<forall>sg \<in> set sgs. snd (unmarshal_headingLoc (Locator sg))"
  shows "collect_chapters acc sgs
         = acc @ map (\<lambda>p. chapter_at (fst p) (snd p)) (enumerate (length acc) (filter is_h2 sgs))"
  using assms
proof (induction sgs arbitrary: acc)
  case Nil
  then show ?case by simp
next
  case (Cons sg sgs)
  from Cons.prems have ok: "snd (unmarshal_headingLoc (Locator sg))"
    and rest: "\<forall>sg \<in> set sgs. snd (unmarshal_headingLoc (Locator sg))"
    by simp_all
  show ?case
  proof (cases "is_h2 sg")
    case True
    with ok have step: "collect_chapters acc (sg # sgs)
                        = collect_chapters (acc @ [chapter_at (length acc) sg]) sgs"
      by (simp add: collect_chapters_Cons del: collect_chapters.simps)
    from Cons.IH[OF rest, of "acc @ [chapter_at (length acc) sg]"] True show ?thesis
      unfolding step by (simp add: enumerate_simps)
  next
    case False
    then have step: "collect_chapters acc (sg # sgs) = collect_chapters acc sgs"
      by (simp add: collect_chapters_Cons del: collect_chapters.simps)
    from Cons.IH[OF rest, of acc] False show ?thesis
      unfolding step by simp
  qed
qed

lemma insert_chapter_sections_ok:
  assumes "\<forall>s \<in> set (story_sections st).
             sec_story_version_id s = vid \<longrightarrow> sec_ordinal s \<notin> SectionOrdinal ` set chs"
    and "distinct (map SectionOrdinal chs)"
  shows "\<exists>byStart' st'. insert_chapter_sections st vid byStart chs = Inr (byStart', st')
     \<and> story_sections st' = story_sections st @ map (chapter_row vid) (enumerate (next_uuid st) chs)
     \<and> next_uuid st' = next_uuid st + length chs
     \<and> byStart' = foldl (\<lambda>m p. m(StartSegOrdinal (snd p) \<mapsto> fst p)) byStart
                      (enumerate (next_uuid st) chs)"
  using assms
proof (induction chs arbitrary: st byStart)
  case Nil
  then show ?case by simp
next
  case (Cons ch chs)
  let ?row = "\<lparr>sec_id = next_uuid st, sec_story_version_id = vid, sec_kind = ''chapter'',
                sec_title = Some (ch_Title ch), sec_ordinal = SectionOrdinal ch\<rparr>"
  let ?st1 = "st\<lparr>story_sections := story_sections st @ [?row], next_uuid := Suc (next_uuid st)\<rparr>"
  from Cons.prems(1) have
    ins: "insert_section st vid ''chapter'' (Some (ch_Title ch)) (SectionOrdinal ch)
          = Inr (next_uuid st, ?st1)"
    by (auto simp: insert_section_def)
  have a: "\<forall>s \<in> set (story_sections ?st1).
             sec_story_version_id s = vid \<longrightarrow> sec_ordinal s \<notin> SectionOrdinal ` set chs"
    using Cons.prems by auto
  have b: "distinct (map SectionOrdinal chs)"
    using Cons.prems(2) by simp
  from Cons.IH[OF a b, of "byStart(StartSegOrdinal ch \<mapsto> next_uuid st)"] obtain byStart' st' where
    r: "insert_chapter_sections ?st1 vid (byStart(StartSegOrdinal ch \<mapsto> next_uuid st)) chs
        = Inr (byStart', st')"
       "story_sections st' = story_sections ?st1 @ map (chapter_row vid) (enumerate (next_uuid ?st1) chs)"
       "next_uuid st' = next_uuid ?st1 + length chs"
       "byStart' = foldl (\<lambda>m p. m(StartSegOrdinal (snd p) \<mapsto> fst p))
                     (byStart(StartSegOrdinal ch \<mapsto> next_uuid st)) (enumerate (next_uuid ?st1) chs)"
    by blast
  have run: "insert_chapter_sections st vid byStart (ch # chs) = Inr (byStart', st')"
    using ins r(1) by simp
  have rows: "story_sections st' = story_sections st @ map (chapter_row vid) (enumerate (next_uuid st) (ch # chs))"
    using r(2) by (simp add: chapter_row_def enumerate_simps)
  have nxt: "next_uuid st' = next_uuid st + length (ch # chs)"
    using r(3) by simp
  have m: "byStart' = foldl (\<lambda>m p. m(StartSegOrdinal (snd p) \<mapsto> fst p)) byStart
                      (enumerate (next_uuid st) (ch # chs))"
    using r(4) by (simp add: enumerate_simps del: fun_upd_apply)
  from run rows nxt m show ?case by blast
qed

lemma insert_segments_ok:
  assumes "\<forall>g \<in> set (story_segments st).
             sg_story_version_id g = vid \<longrightarrow> sg_ordinal g \<notin> Ordinal ` set sgs"
    and "distinct (map Ordinal sgs)"
    and "nc \<longrightarrow> byStart 1 \<noteq> None"
  shows "\<exists>st'. insert_segments st vid nc byStart cur sgs = Inr st'
     \<and> story_segments st'
         = story_segments st
           @ map (segment_row_of vid) (enumerate (next_uuid st) (zip (section_args nc byStart cur sgs) sgs))
     \<and> next_uuid st' = next_uuid st + length sgs"
  using assms
proof (induction sgs arbitrary: st cur)
  case Nil
  then show ?case by simp
next
  case (Cons sg sgs)
  define arg where "arg = (if nc then byStart 1 else fst (assign_section byStart cur sg))"
  define cur1 where "cur1 = (if nc then cur else snd (assign_section byStart cur sg))"
  let ?row = "\<lparr>sg_id = next_uuid st, sg_story_version_id = vid, section_id = arg,
                sg_ordinal = Ordinal sg, sg_locator = Locator sg, sg_markdown = seg_Markdown sg,
                sg_rendered_html = seg_RenderedHTML sg, word_count = WordCount sg\<rparr>"
  let ?st1 = "st\<lparr>story_segments := story_segments st @ [?row], next_uuid := Suc (next_uuid st)\<rparr>"
  from Cons.prems(1) have ins: "insert_segment st vid arg sg = Inr ?st1"
    by (auto simp: insert_segment_def)
  have step: "insert_segments st vid nc byStart cur (sg # sgs)
              = insert_segments ?st1 vid nc byStart cur1 sgs"
    using ins Cons.prems(3) by (auto simp: arg_def cur1_def)
  have args: "section_args nc byStart cur (sg # sgs) = arg # section_args nc byStart cur1 sgs"
    by (simp add: arg_def cur1_def)
  have a: "\<forall>g \<in> set (story_segments ?st1).
             sg_story_version_id g = vid \<longrightarrow> sg_ordinal g \<notin> Ordinal ` set sgs"
    using Cons.prems(1,2) by auto
  have b: "distinct (map Ordinal sgs)"
    using Cons.prems(2) by simp
  from Cons.IH[OF a b Cons.prems(3), of cur1] obtain st' where
    r: "insert_segments ?st1 vid nc byStart cur1 sgs = Inr st'"
       "story_segments st' = story_segments ?st1
          @ map (segment_row_of vid) (enumerate (next_uuid ?st1) (zip (section_args nc byStart cur1 sgs) sgs))"
       "next_uuid st' = next_uuid ?st1 + length sgs"
    by blast
  have rows: "story_segments st' = story_segments st
          @ map (segment_row_of vid)
              (enumerate (next_uuid st) (zip (section_args nc byStart cur (sg # sgs)) (sg # sgs)))"
    using r(2) unfolding args by (simp add: segment_row_of_def enumerate_simps)
  have nxt: "next_uuid st' = next_uuid st + length (sg # sgs)"
    using r(3) by simp
  from r(1) rows nxt show ?case
    unfolding step by blast
qed


section \<open>The store: an ingest of new content\<close>

lemma fold_max_Max: "fold max xs (a::int) = Max (insert a (set xs))"
  using Max.set_eq_fold[of a xs] by simp

lemma next_version_gt:
  assumes "v \<in> set (story_versions st)" "v_story_id v = sid"
  shows "version v < next_version st sid"
proof -
  from assms have m: "version v \<in> set (map version (filter (\<lambda>v. v_story_id v = sid) (story_versions st)))"
    by auto
  show ?thesis
  proof (cases "map version (filter (\<lambda>v. v_story_id v = sid) (story_versions st))")
    case Nil
    with m show ?thesis by simp
  next
    case (Cons x xs)
    with m have "version v \<in> insert x (set xs)" by simp
    then have "version v \<le> Max (insert x (set xs))"
      by (intro Max_ge) simp_all
    with Cons show ?thesis
      by (simp add: next_version_def fold_max_Max)
  qed
qed

lemma next_version_eq:
  "next_version st sid =
     (if versions_of st sid = [] then 1 else Max (set (map version (versions_of st sid))) + 1)"
proof (cases "map version (filter (\<lambda>v. v_story_id v = sid) (story_versions st))")
  case Nil
  then show ?thesis
    by (simp add: next_version_def versions_of_def)
next
  case (Cons x xs)
  then have "set (map version (versions_of st sid)) = insert x (set xs)"
    unfolding versions_of_def by (metis list.simps(15))
  with Cons show ?thesis
    by (auto simp add: next_version_def versions_of_def fold_max_Max)
qed

lemma insert_version_ok:
  assumes "select_version_by_hash st sid (ContentHash ing) = None"
  shows "insert_version st sid (next_version st sid) ing
         = Inr (next_uuid st,
                st\<lparr>story_versions :=
                     story_versions st @
                     [\<lparr>v_id = next_uuid st, v_story_id = sid, version = next_version st sid,
                       v_frontmatter = Frontmatter ing, v_markdown = Markdown ing,
                       v_rendered_html = RenderedHTML ing, content_hash = ContentHash ing\<rparr>],
                   next_uuid := Suc (next_uuid st)\<rparr>)"
proof -
  have "\<not> (\<exists>v \<in> set (story_versions st).
           v_story_id v = sid \<and> (version v = next_version st sid \<or> content_hash v = ContentHash ing))"
  proof
    assume "\<exists>v \<in> set (story_versions st).
           v_story_id v = sid \<and> (version v = next_version st sid \<or> content_hash v = ContentHash ing)"
    then obtain v where v: "v \<in> set (story_versions st)" "v_story_id v = sid"
      and d: "version v = next_version st sid \<or> content_hash v = ContentHash ing"
      by blast
    from next_version_gt[OF v] have "version v \<noteq> next_version st sid" by simp
    moreover from assms v have "content_hash v \<noteq> ContentHash ing"
      by (auto simp: select_version_by_hash_def find_None_iff)
    ultimately show False using d by simp
  qed
  then show ?thesis
    by (simp add: insert_version_def)
qed

lemma insert_sections_ok:
  assumes "\<forall>s \<in> set (story_sections st). sec_story_version_id s \<noteq> vid"
    and "distinct (map SectionOrdinal chs)"
  shows "\<exists>byStart st'. insert_sections st vid chs = Inr (byStart, st')
     \<and> story_sections st'
         = story_sections st
           @ (if chs = []
              then [\<lparr>sec_id = next_uuid st, sec_story_version_id = vid, sec_kind = ''section'',
                      sec_title = None, sec_ordinal = 1\<rparr>]
              else map (chapter_row vid) (enumerate (next_uuid st) chs))
     \<and> next_uuid st' = next_uuid st + (if chs = [] then 1 else length chs)
     \<and> byStart = (if chs = [] then [1 \<mapsto> next_uuid st]
                   else foldl (\<lambda>m p. m(StartSegOrdinal (snd p) \<mapsto> fst p)) Map.empty
                          (enumerate (next_uuid st) chs))"
proof (cases "chs = []")
  case True
  with assms(1) show ?thesis
    by (simp add: insert_sections_def insert_section_def)
next
  case False
  have "\<forall>s \<in> set (story_sections st).
             sec_story_version_id s = vid \<longrightarrow> sec_ordinal s \<notin> SectionOrdinal ` set chs"
    using assms(1) by simp
  from insert_chapter_sections_ok[OF this assms(2), of Map.empty] False show ?thesis
    by (simp add: insert_sections_def)
qed

lemma db_ok_insert_chapter_sections:
  assumes "db_ok st" "vid < next_uuid st"
    "insert_chapter_sections st vid byStart chs = Inr (byStart', st1)"
  shows "db_ok st1"
  using assms
proof (induction chs arbitrary: st byStart)
  case Nil
  then show ?case by simp
next
  case (Cons ch chs)
  from Cons.prems(3) obtain secID st2 where
    ins: "insert_section st vid ''chapter'' (Some (ch_Title ch)) (SectionOrdinal ch) = Inr (secID, st2)"
    and rest: "insert_chapter_sections st2 vid (byStart(StartSegOrdinal ch \<mapsto> secID)) chs
               = Inr (byStart', st1)"
    by (auto split: sum.splits)
  have "db_ok st2"
    using Cons.prems(1,2) ins by (rule db_ok_insert_section)
  moreover have "vid < next_uuid st2"
    using insert_section_frame(4)[OF ins] Cons.prems(2) by simp
  ultimately show ?case
    using rest by (rule Cons.IH)
qed

lemma db_ok_insert_sections:
  assumes "db_ok st" "vid < next_uuid st" "insert_sections st vid chs = Inr (byStart', st1)"
  shows "db_ok st1"
proof (cases "chs = []")
  case True
  with assms(3) obtain secID where "insert_section st vid ''section'' None 1 = Inr (secID, st1)"
    by (auto simp: insert_sections_def split: sum.splits)
  with assms(1,2) show ?thesis
    by (rule db_ok_insert_section)
next
  case False
  with assms(3) have "insert_chapter_sections st vid Map.empty chs = Inr (byStart', st1)"
    by (simp add: insert_sections_def)
  with assms(1,2) show ?thesis
    by (rule db_ok_insert_chapter_sections)
qed

lemma db_ok_insert_segments:
  assumes "db_ok st" "vid < next_uuid st" "insert_segments st vid nc byStart cur sgs = Inr st1"
  shows "db_ok st1"
  using assms
proof (induction sgs arbitrary: st cur)
  case Nil
  then show ?case by simp
next
  case (Cons sg sgs)
  from Cons.prems(3) obtain arg cur1 st2 where
    ins: "insert_segment st vid arg sg = Inr st2"
    and rest: "insert_segments st2 vid nc byStart cur1 sgs = Inr st1"
    by (rule insert_segments_step)
  have "db_ok st2"
    using Cons.prems(1,2) ins by (rule db_ok_insert_segment)
  moreover have "vid < next_uuid st2"
    using insert_segment_frame(4)[OF ins] Cons.prems(2) by simp
  ultimately show ?case
    using rest by (rule Cons.IH)
qed

lemma next_uuid_insert_sections:
  assumes "insert_sections st vid chs = Inr (byStart', st1)"
  shows "next_uuid st \<le> next_uuid st1"
proof -
  have "next_uuid st \<le> next_uuid st1"
    if "insert_chapter_sections st vid byStart chs = Inr (byStart', st1)" for st byStart chs
    using that
  proof (induction chs arbitrary: st byStart)
    case Nil
    then show ?case by simp
  next
    case (Cons ch chs)
    from Cons.prems obtain secID st2 where
      ins: "insert_section st vid ''chapter'' (Some (ch_Title ch)) (SectionOrdinal ch) = Inr (secID, st2)"
      and rest: "insert_chapter_sections st2 vid (byStart(StartSegOrdinal ch \<mapsto> secID)) chs
                 = Inr (byStart', st1)"
      by (auto split: sum.splits)
    from Cons.IH[OF rest] insert_section_frame(4)[OF ins] show ?case by simp
  qed
  with assms show ?thesis
    by (auto simp: insert_sections_def split: if_splits sum.splits dest: insert_section_frame(4))
qed

text \<open>The transaction keeps the constraints.\<close>

lemma db_ok_draft_tx:
  assumes ok: "db_ok st" and tx: "draft_tx e st accountID ing = Inr (resp, st')"
  shows "db_ok st'"
  using tx
proof (cases rule: draft_tx_Inr)
  case (hit acct sid st1 existing)
  from db_ok_upsert_story(1)[OF ok hit(2)] show ?thesis
    unfolding hit(4) by (intro db_ok_link_author db_ok_update_draft)
next
  case (new acct sid st1 vid st2 byStart st3 st4)
  note u = db_ok_upsert_story[OF ok new(2)]
  have ok2: "db_ok st2"
    using u new(4) by (rule db_ok_insert_version)
  have v2: "vid < next_uuid st2"
    using insert_version_frame(4,5)[OF new(4)] by simp
  have ok3: "db_ok st3"
    using ok2 v2 new(5) by (rule db_ok_insert_sections)
  have v3: "vid < next_uuid st3"
    using v2 next_uuid_insert_sections[OF new(5)] by simp
  have "db_ok st4"
    using ok3 v3 new(6) by (rule db_ok_insert_segments)
  then show ?thesis
    unfolding new(7) by (intro db_ok_link_author db_ok_update_draft)
qed

lemma db_ok_AdminDraftUpsert:
  assumes "db_ok st"
  shows "db_ok (snd (AdminDraftUpsert e st accountID req))"
proof (cases "AdminDraftUpsert e st accountID req")
  case (Pair res st')
  show ?thesis
  proof (cases res)
    case (Inl er)
    with Pair have "st' = st"
      by (auto simp: AdminDraftUpsert_def split: if_splits sum.splits)
    with assms Pair show ?thesis by simp
  next
    case (Inr resp)
    with Pair obtain ing where "draft_tx e st (TrimSpace accountID) ing = Inr (resp, st')"
      by (auto simp: AdminDraftUpsert_def split: if_splits sum.splits)
    from db_ok_draft_tx[OF assms this] Pair show ?thesis by simp
  qed
qed


text \<open>The story after the upsert, and its versions before it.\<close>

lemma find_append:
  "find P (xs @ ys) = (case find P xs of None \<Rightarrow> find P ys | Some x \<Rightarrow> Some x)"
  by (induction xs) simp_all

lemma find_map_same:
  assumes "\<And>x. P (g x) = P x"
  shows "find P (map g xs) = map_option g (find P xs)"
  by (induction xs) (simp_all add: assms)

lemma story_lookup_cong: "stories st1 = stories st \<Longrightarrow> story_lookup st1 acct slug = story_lookup st acct slug"
  by (simp add: story_lookup_def)

lemma versions_of_cong: "story_versions st1 = story_versions st \<Longrightarrow> versions_of st1 sid = versions_of st sid"
  by (simp add: versions_of_def)

lemma story_lookup_update_draft:
  "map_option s_id (story_lookup (update_draft st sid vid) acct slug)
   = map_option s_id (story_lookup st acct slug)"
proof -
  have "story_lookup (update_draft st sid vid) acct slug
        = map_option (\<lambda>r. if s_id r = sid then r\<lparr>draft_version_id := Some vid\<rparr> else r)
            (story_lookup st acct slug)"
    unfolding story_lookup_def update_draft_def
    by (simp add: find_map_same)
  then show ?thesis
    by (simp add: option.map_comp o_def if_distrib cong: if_cong)
qed

lemma upsert_story_lookup:
  assumes ok: "db_ok st" and u: "upsert_story st acct ing = (sid, st1)"
  shows "map_option s_id (story_lookup st1 acct (Slug ing)) = Some sid"
    and "versions_of st sid = story_versions_of st acct (Slug ing)"
proof -
  let ?P = "\<lambda>r. s_account_id r = acct \<and> s_slug r = Slug ing"
  show "map_option s_id (story_lookup st1 acct (Slug ing)) = Some sid"
  proof (cases "find ?P (stories st)")
    case None
    with u show ?thesis
      by (auto simp: upsert_story_def story_lookup_def find_append)
  next
    case (Some r0)
    define g :: "story_row \<Rightarrow> story_row" where
      "g = (\<lambda>r. if s_account_id r = acct \<and> s_slug r = Slug ing
                 then r\<lparr>s_title := Title ing, s_author := nullif_btrim (Author ing),
                        s_language := Language ing, s_source := Source ing,
                        s_rights := Rights ing\<rparr>
                 else r)"
    have g: "\<And>r. ?P (g r) = ?P r" "\<And>r. s_id (g r) = s_id r"
      by (simp_all add: g_def)
    from Some u have st1: "stories st1 = map g (stories st)" and sid: "sid = s_id r0"
      by (auto simp: upsert_story_def g_def)
    have "story_lookup st1 acct (Slug ing) = Some (g r0)"
      unfolding story_lookup_def st1 using Some by (simp add: find_map_same[of ?P g, OF g(1)])
    then show ?thesis
      by (simp add: g(2) sid)
  qed
  show "versions_of st sid = story_versions_of st acct (Slug ing)"
  proof (cases "find ?P (stories st)")
    case None
    with u have "sid = next_uuid st"
      by (auto simp: upsert_story_def)
    with ok have "versions_of st sid = []"
      by (auto simp: versions_of_def db_ok_def list_all_iff filter_empty_conv)
    with None show ?thesis
      by (simp add: story_versions_of_def story_lookup_def)
  next
    case (Some r0)
    with u have "sid = s_id r0"
      by (auto simp: upsert_story_def)
    with Some show ?thesis
      by (simp add: story_versions_of_def story_lookup_def)
  qed
qed

lemma story_versions_of_after:
  assumes "map_option s_id (story_lookup st' acct slug) = Some sid"
  shows "story_versions_of st' acct slug = versions_of st' sid"
  using assms by (auto simp: story_versions_of_def split: option.splits)

text \<open>The transaction on content the story has.\<close>

lemma draft_tx_hit:
  assumes ok: "db_ok st" and account: "pg_uuid_in e accountID = Some acct"
    and v: "v \<in> set (story_versions_of st acct (Slug ing))" "content_hash v = ContentHash ing"
  shows "\<exists>resp st'. draft_tx e st accountID ing = Inr (resp, st')
     \<and> Version resp = version v \<and> StoryVersionID resp = v_id v
     \<and> story_versions st' = story_versions st
     \<and> story_versions_of st' acct (Slug ing) = story_versions_of st acct (Slug ing)"
proof -
  obtain sid st1 where u: "upsert_story st acct ing = (sid, st1)"
    by (cases "upsert_story st acct ing")
  note l = upsert_story_lookup[OF ok u]
  note f1 = upsert_story_frame[OF u]
  from v(1) have "v \<in> set (versions_of st sid)"
    by (simp add: l(2))
  then have vin: "v \<in> set (story_versions st1)" "v_story_id v = sid"
    by (simp_all add: versions_of_def f1(1))
  have sel: "select_version_by_hash st1 sid (ContentHash ing) = Some v"
    using db_ok_upsert_story(1)[OF ok u] vin v(2) by (rule select_version_unique)
  define st' where "st' = link_author (update_draft st1 sid (v_id v)) sid (Author ing)"
  have tx: "draft_tx e st accountID ing
            = Inr (\<lparr>StoryID = sid, StoryVersionID = v_id v, resp_Slug = Slug ing,
                     Version = version v, SegmentsCount = int (length (Segments ing)),
                     resp_RenderedHTML = v_rendered_html v\<rparr>, st')"
    using account u sel by (simp add: draft_tx_def Let_def st'_def)
  have vs: "story_versions st' = story_versions st"
    unfolding st'_def by (simp add: link_author_frame update_draft_frame f1)
  have "story_lookup st' acct (Slug ing) = story_lookup (update_draft st1 sid (v_id v)) acct (Slug ing)"
    unfolding st'_def by (rule story_lookup_cong) (rule link_author_frame(1))
  then have "map_option s_id (story_lookup st' acct (Slug ing)) = Some sid"
    by (simp add: story_lookup_update_draft l(1))
  from story_versions_of_after[OF this] have
    "story_versions_of st' acct (Slug ing) = story_versions_of st acct (Slug ing)"
    using versions_of_cong[OF vs] l(2) by simp
  with tx vs show ?thesis by simp
qed

text \<open>The transaction on new content: it goes through, and what it stores.\<close>

lemma draft_tx_new:
  assumes ok: "db_ok st" and account: "pg_uuid_in e accountID = Some acct"
    and u: "upsert_story st acct ing = (sid, st1)"
    and none: "select_version_by_hash st1 sid (ContentHash ing) = None"
    and dist: "distinct (map Ordinal (Segments ing))"
  defines "vid \<equiv> next_uuid st1"
    and "chs \<equiv> collect_chapters [] (Segments ing)"
  shows "\<exists>byStart st'.
       draft_tx e st accountID ing
       = Inr (\<lparr>StoryID = sid, StoryVersionID = vid, resp_Slug = Slug ing,
                Version = next_version st1 sid, SegmentsCount = int (length (Segments ing)),
                resp_RenderedHTML = RenderedHTML ing\<rparr>, st')
     \<and> story_versions st'
         = story_versions st
           @ [\<lparr>v_id = vid, v_story_id = sid, version = next_version st1 sid,
                v_frontmatter = Frontmatter ing, v_markdown = Markdown ing,
                v_rendered_html = RenderedHTML ing, content_hash = ContentHash ing\<rparr>]
     \<and> story_sections st'
         = story_sections st
           @ (if chs = []
              then [\<lparr>sec_id = Suc vid, sec_story_version_id = vid, sec_kind = ''section'',
                      sec_title = None, sec_ordinal = 1\<rparr>]
              else map (chapter_row vid) (enumerate (Suc vid) chs))
     \<and> byStart = (if chs = [] then [1 \<mapsto> Suc vid]
                   else foldl (\<lambda>m p. m(StartSegOrdinal (snd p) \<mapsto> fst p)) Map.empty
                          (enumerate (Suc vid) chs))
     \<and> story_segments st'
         = story_segments st
           @ map (segment_row_of vid)
               (enumerate (Suc vid + (if chs = [] then 1 else length chs))
                  (zip (section_args (chs = []) byStart None (Segments ing)) (Segments ing)))
     \<and> stories st' = stories (update_draft st1 sid vid)"
proof -
  note ok1 = db_ok_upsert_story[OF ok u]
  note f1 = upsert_story_frame[OF u]
  let ?row = "\<lparr>v_id = vid, v_story_id = sid, version = next_version st1 sid,
                v_frontmatter = Frontmatter ing, v_markdown = Markdown ing,
                v_rendered_html = RenderedHTML ing, content_hash = ContentHash ing\<rparr>"
  define st2 where "st2 = st1\<lparr>story_versions := story_versions st1 @ [?row],
                               next_uuid := Suc (next_uuid st1)\<rparr>"
  have iv: "insert_version st1 sid (next_version st1 sid) ing = Inr (vid, st2)"
    using insert_version_ok[OF none] by (simp add: vid_def st2_def)
  have fresh_sec: "\<forall>s \<in> set (story_sections st2). sec_story_version_id s \<noteq> vid"
    using ok1(1) by (auto simp: db_ok_def list_all_iff st2_def vid_def)
  have fresh_seg: "\<forall>g \<in> set (story_segments st2). sg_story_version_id g \<noteq> vid"
    using ok1(1) by (auto simp: db_ok_def list_all_iff st2_def vid_def)
  have dch: "distinct (map SectionOrdinal chs)"
    unfolding chs_def by (rule collect_chapters_distinct)
  from insert_sections_ok[OF fresh_sec dch] obtain byStart st3 where
    isec: "insert_sections st2 vid chs = Inr (byStart, st3)"
    and sec3: "story_sections st3
         = story_sections st2
           @ (if chs = []
              then [\<lparr>sec_id = next_uuid st2, sec_story_version_id = vid, sec_kind = ''section'',
                      sec_title = None, sec_ordinal = 1\<rparr>]
              else map (chapter_row vid) (enumerate (next_uuid st2) chs))"
    and n3: "next_uuid st3 = next_uuid st2 + (if chs = [] then 1 else length chs)"
    and bs: "byStart = (if chs = [] then [1 \<mapsto> next_uuid st2]
                   else foldl (\<lambda>m p. m(StartSegOrdinal (snd p) \<mapsto> fst p)) Map.empty
                          (enumerate (next_uuid st2) chs))"
    by blast
  note f3 = insert_sections_frame[OF isec]
  have fresh_seg3: "\<forall>g \<in> set (story_segments st3).
             sg_story_version_id g = vid \<longrightarrow> sg_ordinal g \<notin> Ordinal ` set (Segments ing)"
    using fresh_seg f3(3) by simp
  have nc: "(chs = []) \<longrightarrow> byStart 1 \<noteq> None"
    using bs by simp
  from insert_segments_ok[of st3 vid "Segments ing" "chs = []" byStart None, OF fresh_seg3 dist nc]
  obtain st4 where
    ig: "insert_segments st3 vid (chs = []) byStart None (Segments ing) = Inr st4"
    and seg4: "story_segments st4
         = story_segments st3
           @ map (segment_row_of vid)
               (enumerate (next_uuid st3)
                  (zip (section_args (chs = []) byStart None (Segments ing)) (Segments ing)))"
    by blast
  note f4 = insert_segments_frame[OF ig]
  define st' where "st' = link_author (update_draft st4 sid vid) sid (Author ing)"
  have tx: "draft_tx e st accountID ing
       = Inr (\<lparr>StoryID = sid, StoryVersionID = vid, resp_Slug = Slug ing,
                Version = next_version st1 sid, SegmentsCount = int (length (Segments ing)),
                resp_RenderedHTML = RenderedHTML ing\<rparr>, st')"
    using account u none iv isec ig
    by (simp add: draft_tx_def Let_def st'_def chs_def)
  have n2: "next_uuid st2 = Suc vid"
    by (simp add: st2_def vid_def)
  have a: "story_versions st' = story_versions st @ [?row]"
    unfolding st'_def using f4 f3(2) f1(1)
    by (simp add: link_author_frame update_draft_frame st2_def)
  have b: "story_sections st'
         = story_sections st
           @ (if chs = []
              then [\<lparr>sec_id = Suc vid, sec_story_version_id = vid, sec_kind = ''section'',
                      sec_title = None, sec_ordinal = 1\<rparr>]
              else map (chapter_row vid) (enumerate (Suc vid) chs))"
    unfolding st'_def using f4 sec3 f1(2)
    by (simp add: link_author_frame update_draft_frame n2) (simp add: st2_def)
  have c: "story_segments st'
         = story_segments st
           @ map (segment_row_of vid)
               (enumerate (Suc vid + (if chs = [] then 1 else length chs))
                  (zip (section_args (chs = []) byStart None (Segments ing)) (Segments ing)))"
    unfolding st'_def using seg4 f3(3) f1(3) n3
    by (simp add: link_author_frame update_draft_frame n2) (simp add: st2_def)
  have d: "stories st' = stories (update_draft st1 sid vid)"
    unfolding st'_def using f4 f3(1)
    by (simp add: link_author_frame update_draft_def st2_def)
  have bs': "byStart = (if chs = [] then [1 \<mapsto> Suc vid]
                   else foldl (\<lambda>m p. m(StartSegOrdinal (snd p) \<mapsto> fst p)) Map.empty
                          (enumerate (Suc vid) chs))"
    using bs by (simp only: n2)
  from tx a b bs' c d show ?thesis by blast
qed

section \<open>Version numbers\<close>

lemma request_hash_Ingest:
  assumes "Ingest e (request_input req) = Inr ing"
  shows "ContentHash ing = request_hash e req"
  using Ingest_Inr(10)[OF assms] by (simp add: request_hash_def request_input_def)

lemma Ingest_distinct_ordinals:
  assumes "Ingest e inp = Inr ing"
  shows "distinct (map Ordinal (Segments ing))"
  using Ingest_Inr(11)[OF assms] by (simp add: segment_blocks_distinct)

lemma AdminDraftUpsert_draft_tx:
  assumes "TrimSpace accountID \<noteq> []" "Ingest e (request_input req) = Inr ing"
    "draft_tx e st (TrimSpace accountID) ing = Inr (resp, st')"
  shows "AdminDraftUpsert e st accountID req = (Inr resp, st')"
  using assms by (simp add: AdminDraftUpsert_def)

text \<open>One request that \<open>Ingest\<close> accepts, on a database that keeps its constraints.\<close>

lemma upsert_step:
  assumes ok: "db_ok st"
    and account: "TrimSpace accountID \<noteq> []" "pg_uuid_in e (TrimSpace accountID) = Some acct"
    and ing: "Ingest e (request_input req) = Inr ing"
  defines "vs \<equiv> story_versions_of st acct (Slug ing)"
  shows "\<exists>resp st1. AdminDraftUpsert e st accountID req = (Inr resp, st1) \<and> db_ok st1 \<and>
      (case map_of (map (\<lambda>v. (content_hash v, version v)) vs) (request_hash e req) of
         Some n \<Rightarrow> Version resp = n \<and> story_versions st1 = story_versions st
                   \<and> story_versions_of st1 acct (Slug ing) = vs
       | None \<Rightarrow> Version resp = next_number (map version vs)
                 \<and> story_versions st1
                     = story_versions st
                       @ [\<lparr>v_id = StoryVersionID resp, v_story_id = StoryID resp,
                            version = Version resp, v_frontmatter = Frontmatter ing,
                            v_markdown = Markdown ing, v_rendered_html = RenderedHTML ing,
                            content_hash = request_hash e req\<rparr>]
                 \<and> story_versions_of st1 acct (Slug ing)
                     = vs @ [\<lparr>v_id = StoryVersionID resp, v_story_id = StoryID resp,
                            version = Version resp, v_frontmatter = Frontmatter ing,
                            v_markdown = Markdown ing, v_rendered_html = RenderedHTML ing,
                            content_hash = request_hash e req\<rparr>])"
proof -
  note h = request_hash_Ingest[OF ing]
  have okS: "\<And>resp st1. AdminDraftUpsert e st accountID req = (Inr resp, st1) \<Longrightarrow> db_ok st1"
    using db_ok_AdminDraftUpsert[OF ok, of e accountID req] by simp
  show ?thesis
  proof (cases "map_of (map (\<lambda>v. (content_hash v, version v)) vs) (request_hash e req)")
    case (Some n)
    then have "(request_hash e req, n) \<in> set (map (\<lambda>v. (content_hash v, version v)) vs)"
      by (rule map_of_SomeD)
    then obtain v where v: "v \<in> set vs" "content_hash v = ContentHash ing" "version v = n"
      by (auto simp: h)
    from draft_tx_hit[OF ok account(2) v(1)[unfolded vs_def] v(2)] obtain resp st' where
      tx: "draft_tx e st (TrimSpace accountID) ing = Inr (resp, st')"
      and r: "Version resp = version v" "story_versions st' = story_versions st"
        "story_versions_of st' acct (Slug ing) = vs"
      unfolding vs_def by blast
    note a = AdminDraftUpsert_draft_tx[OF account(1) ing tx]
    from a okS[OF a] r v(3) Some show ?thesis
      by simp
  next
    case None
    then have nin: "request_hash e req \<notin> content_hash ` set vs"
      by (simp add: map_of_eq_None_iff image_image)
    obtain sid st1 where u: "upsert_story st acct ing = (sid, st1)"
      by (cases "upsert_story st acct ing")
    note l = upsert_story_lookup[OF ok u]
    note f1 = upsert_story_frame[OF u]
    have vo: "versions_of st1 sid = vs"
      using l(2) versions_of_cong[OF f1(1), of sid] by (simp add: vs_def)
    have none: "select_version_by_hash st1 sid (ContentHash ing) = None"
      unfolding select_version_by_hash_def find_None_iff
    proof (intro notI, elim exE conjE)
      fix v assume "v \<in> set (story_versions st1)" "v_story_id v = sid" "content_hash v = ContentHash ing"
      then have "v \<in> set (versions_of st1 sid)" "content_hash v = request_hash e req"
        by (simp_all add: versions_of_def h)
      with nin vo show False by (metis imageI)
    qed
    let ?row = "\<lparr>v_id = next_uuid st1, v_story_id = sid, version = next_version st1 sid,
                v_frontmatter = Frontmatter ing, v_markdown = Markdown ing,
                v_rendered_html = RenderedHTML ing, content_hash = ContentHash ing\<rparr>"
    from draft_tx_new[OF ok account(2) u none Ingest_distinct_ordinals[OF ing]]
    obtain st' where
      tx: "draft_tx e st (TrimSpace accountID) ing
       = Inr (\<lparr>StoryID = sid, StoryVersionID = next_uuid st1, resp_Slug = Slug ing,
                Version = next_version st1 sid, SegmentsCount = int (length (Segments ing)),
                resp_RenderedHTML = RenderedHTML ing\<rparr>, st')"
      and sv: "story_versions st' = story_versions st @ [?row]"
      and ss: "stories st' = stories (update_draft st1 sid (next_uuid st1))"
      by blast
    note a = AdminDraftUpsert_draft_tx[OF account(1) ing tx]
    have nv: "next_version st1 sid = next_number (map version vs)"
      by (simp add: next_version_eq vo next_number_def)
    have "story_lookup st' acct (Slug ing)
          = story_lookup (update_draft st1 sid (next_uuid st1)) acct (Slug ing)"
      by (rule story_lookup_cong) (rule ss)
    then have "map_option s_id (story_lookup st' acct (Slug ing)) = Some sid"
      by (simp add: story_lookup_update_draft l(1))
    from story_versions_of_after[OF this] have
      so: "story_versions_of st' acct (Slug ing) = vs @ [?row]"
      using vo by (simp add: versions_of_def sv f1(1))
    from a okS[OF a] None nv sv so show ?thesis
      by (simp add: h)
  qed
qed


lemma upsert_step_known:
  assumes ok: "db_ok st"
    and account: "TrimSpace accountID \<noteq> []" "pg_uuid_in e (TrimSpace accountID) = Some acct"
    and ing: "Ingest e (request_input req) = Inr ing" "Slug ing = slug"
  shows "\<exists>resp st1. AdminDraftUpsert e st accountID req = (Inr resp, st1) \<and> db_ok st1 \<and>
      (case map_of (known_versions st acct slug) (request_hash e req) of
         Some n \<Rightarrow> Version resp = n \<and> known_versions st1 acct slug = known_versions st acct slug
       | None \<Rightarrow> Version resp = next_number (map snd (known_versions st acct slug))
                 \<and> known_versions st1 acct slug
                     = known_versions st acct slug
                       @ [(request_hash e req, next_number (map snd (known_versions st acct slug)))])"
proof -
  have m: "map snd (known_versions st acct slug) = map version (story_versions_of st acct slug)"
    by (simp add: known_versions_def o_def)
  from upsert_step[OF ok account ing(1)] obtain resp st1 where
    a: "AdminDraftUpsert e st accountID req = (Inr resp, st1)" "db_ok st1"
    and c: "case map_of (known_versions st acct slug) (request_hash e req) of
         Some n \<Rightarrow> Version resp = n \<and> story_versions st1 = story_versions st
                   \<and> story_versions_of st1 acct slug = story_versions_of st acct slug
       | None \<Rightarrow> Version resp = next_number (map version (story_versions_of st acct slug))
                 \<and> story_versions st1
                     = story_versions st
                       @ [\<lparr>v_id = StoryVersionID resp, v_story_id = StoryID resp,
                            version = Version resp, v_frontmatter = Frontmatter ing,
                            v_markdown = Markdown ing, v_rendered_html = RenderedHTML ing,
                            content_hash = request_hash e req\<rparr>]
                 \<and> story_versions_of st1 acct slug
                     = story_versions_of st acct slug
                       @ [\<lparr>v_id = StoryVersionID resp, v_story_id = StoryID resp,
                            version = Version resp, v_frontmatter = Frontmatter ing,
                            v_markdown = Markdown ing, v_rendered_html = RenderedHTML ing,
                            content_hash = request_hash e req\<rparr>]"
    unfolding ing(2) known_versions_def by blast
  show ?thesis
  proof (cases "map_of (known_versions st acct slug) (request_hash e req)")
    case None
    with c have "Version resp = next_number (map snd (known_versions st acct slug))"
      "known_versions st1 acct slug
         = known_versions st acct slug
           @ [(request_hash e req, next_number (map snd (known_versions st acct slug)))]"
      by (simp_all add: m) (simp add: known_versions_def)
    with a None show ?thesis by simp
  next
    case (Some n)
    with c have "Version resp = n" "known_versions st1 acct slug = known_versions st acct slug"
      by (simp_all add: known_versions_def)
    with a Some show ?thesis by simp
  qed
qed

text \<open>A run of requests for one story.\<close>

lemma upsert_all_expected:
  assumes account: "TrimSpace accountID \<noteq> []" "pg_uuid_in e (TrimSpace accountID) = Some acct"
  shows "db_ok st \<Longrightarrow>
     \<forall>r \<in> set reqs. \<exists>ing. Ingest e (request_input r) = Inr ing \<and> Slug ing = slug \<Longrightarrow>
     map (map_sum id Version) (fst (upsert_all e st accountID reqs))
     = map Inr (expected_versions (known_versions st acct slug) (map (request_hash e) reqs))"
proof (induction reqs arbitrary: st)
  case Nil
  show ?case by simp
next
  case (Cons req reqs)
  from Cons.prems(2) obtain ing where ing: "Ingest e (request_input req) = Inr ing" "Slug ing = slug"
    by auto
  from Cons.prems(2) have rest: "\<forall>r \<in> set reqs. \<exists>ing. Ingest e (request_input r) = Inr ing \<and> Slug ing = slug"
    by simp
  from upsert_step_known[OF Cons.prems(1) account ing] obtain resp st1 where
    a: "AdminDraftUpsert e st accountID req = (Inr resp, st1)" "db_ok st1"
    and c: "case map_of (known_versions st acct slug) (request_hash e req) of
         Some n \<Rightarrow> Version resp = n \<and> known_versions st1 acct slug = known_versions st acct slug
       | None \<Rightarrow> Version resp = next_number (map snd (known_versions st acct slug))
                 \<and> known_versions st1 acct slug
                     = known_versions st acct slug
                       @ [(request_hash e req, next_number (map snd (known_versions st acct slug)))]"
    by blast
  note ih = Cons.IH[OF a(2) rest]
  show ?case
  proof (cases "map_of (known_versions st acct slug) (request_hash e req)")
    case None
    with c ih a(1) show ?thesis by simp
  next
    case (Some n)
    with c ih a(1) show ?thesis by simp
  qed
qed

lemma Max_upto: "0 < n \<Longrightarrow> Max (int ` {Suc 0..<Suc n}) = int n"
  by (rule Max_eqI) auto

lemma next_number_upto: "next_number (map int [1..<Suc n]) = int n + 1"
  by (cases "n = 0") (simp_all add: next_number_def Max_upto del: upt_Suc)

lemma upsert_all_known:
  assumes account: "TrimSpace accountID \<noteq> []" "pg_uuid_in e (TrimSpace accountID) = Some acct"
  shows "db_ok st \<Longrightarrow>
     \<forall>r \<in> set reqs. \<exists>ing. Ingest e (request_input r) = Inr ing \<and> Slug ing = slug \<Longrightarrow>
     map snd (known_versions st acct slug) = map int [1..<Suc (length (known_versions st acct slug))] \<Longrightarrow>
     distinct (map fst (known_versions st acct slug)) \<Longrightarrow>
     map snd (known_versions (snd (upsert_all e st accountID reqs)) acct slug)
       = map int [1..<Suc (length (known_versions (snd (upsert_all e st accountID reqs)) acct slug))]
     \<and> distinct (map fst (known_versions (snd (upsert_all e st accountID reqs)) acct slug))
     \<and> fst ` set (known_versions (snd (upsert_all e st accountID reqs)) acct slug)
         = fst ` set (known_versions st acct slug) \<union> request_hash e ` set reqs"
proof (induction reqs arbitrary: st)
  case Nil
  then show ?case by simp
next
  case (Cons req reqs)
  from Cons.prems(2) obtain ing where ing: "Ingest e (request_input req) = Inr ing" "Slug ing = slug"
    by auto
  from Cons.prems(2) have rest: "\<forall>r \<in> set reqs. \<exists>ing. Ingest e (request_input r) = Inr ing \<and> Slug ing = slug"
    by simp
  let ?k = "known_versions st acct slug"
  from upsert_step_known[OF Cons.prems(1) account ing] obtain resp st1 where
    a: "AdminDraftUpsert e st accountID req = (Inr resp, st1)" "db_ok st1"
    and c: "case map_of ?k (request_hash e req) of
         Some n \<Rightarrow> Version resp = n \<and> known_versions st1 acct slug = ?k
       | None \<Rightarrow> Version resp = next_number (map snd ?k)
                 \<and> known_versions st1 acct slug
                     = ?k @ [(request_hash e req, next_number (map snd ?k))]"
    by blast
  have s: "snd (upsert_all e st accountID (req # reqs)) = snd (upsert_all e st1 accountID reqs)"
    using a(1) by simp
  show ?case
  proof (cases "map_of ?k (request_hash e req)")
    case (Some n)
    with c have k1: "known_versions st1 acct slug = ?k" by simp
    from Some have "request_hash e req \<in> fst ` set ?k"
      by (metis map_of_eq_None_iff option.distinct(1))
    with Cons.IH[OF a(2) rest, unfolded k1, OF Cons.prems(3,4)] show ?thesis
      unfolding s by auto
  next
    case None
    then have nin: "request_hash e req \<notin> fst ` set ?k"
      by (simp add: map_of_eq_None_iff)
    have nn: "next_number (map snd ?k) = int (length ?k) + 1"
      using Cons.prems(3) next_number_upto[of "length ?k"] by simp
    from None c have k1: "known_versions st1 acct slug = ?k @ [(request_hash e req, int (length ?k) + 1)]"
      by (simp add: nn)
    have i1: "map snd (known_versions st1 acct slug)
              = map int [1..<Suc (length (known_versions st1 acct slug))]"
      unfolding k1 using Cons.prems(3) by simp
    have i2: "distinct (map fst (known_versions st1 acct slug))"
      unfolding k1 using Cons.prems(4) nin by simp
    have "fst ` set (known_versions st1 acct slug) = insert (request_hash e req) (fst ` set ?k)"
      unfolding k1 by simp
    with Cons.IH[OF a(2) rest i1 i2] show ?thesis
      unfolding s by auto
  qed
qed

lemma expected_versions_distinct:
  "map snd known = map int [1..<Suc (length known)] \<Longrightarrow> distinct hs \<Longrightarrow>
   set hs \<inter> fst ` set known = {} \<Longrightarrow>
   expected_versions known hs = map int [Suc (length known)..<Suc (length known + length hs)]"
proof (induction hs arbitrary: known)
  case Nil
  show ?case by simp
next
  case (Cons h hs)
  from Cons.prems(3) have none: "map_of known h = None"
    by (simp add: map_of_eq_None_iff)
  have nn: "next_number (map snd known) = int (length known) + 1"
    using Cons.prems(1) next_number_upto[of "length known"] by simp
  let ?k = "known @ [(h, int (length known) + 1)]"
  have "map snd ?k = map int [1..<Suc (length ?k)]"
    using Cons.prems(1) by simp
  moreover have "distinct hs" "set hs \<inter> fst ` set ?k = {}"
    using Cons.prems(2,3) by auto
  ultimately have "expected_versions ?k hs = map int [Suc (length ?k)..<Suc (length ?k + length hs)]"
    by (rule Cons.IH)
  then show ?case
    using none nn by (simp add: upt_conv_Cons del: upt_Suc)
qed

text \<open>
  Claim C2. On a database that keeps its constraints, for requests of one account that
  \<open>Ingest\<close> accepts for one slug: (1) a request whose content hash is the hash of no
  version of the story is answered with the greatest number among the story's versions plus
  one, 1 when the story has none, and the one row added to \<open>story_versions\<close> carries that
  number, the returned id and the hash; (2) the numbers a run of requests returns are those
  of \<open>expected_versions\<close>: a hash that is known gets the number it has, a new hash the
  next one; (3) on a story without versions, the versions after the run are numbered exactly
  1 .. N, N the number of distinct contents in the run, whatever re-ingests lie between; and
  a run of N pairwise distinct contents returns 1, 2, .., N in this order. Two contents are
  told apart by their hashes, as the code does.
\<close>

theorem version_numbering:
  assumes ok: "db_ok st"
    and account: "TrimSpace accountID \<noteq> []" "pg_uuid_in e (TrimSpace accountID) = Some acct"
    and accepted: "\<forall>r \<in> set (req # reqs). \<exists>ing. Ingest e (request_input r) = Inr ing \<and> Slug ing = slug"
  shows
   "(request_hash e req \<notin> content_hash ` set (story_versions_of st acct slug) \<longrightarrow>
      (\<exists>resp st1 row. AdminDraftUpsert e st accountID req = (Inr resp, st1)
         \<and> Version resp = (if story_versions_of st acct slug = [] then 1
                            else Max (version ` set (story_versions_of st acct slug)) + 1)
         \<and> story_versions st1 = story_versions st @ [row]
         \<and> story_versions_of st1 acct slug = story_versions_of st acct slug @ [row]
         \<and> v_id row = StoryVersionID resp \<and> v_story_id row = StoryID resp
         \<and> version row = Version resp \<and> content_hash row = request_hash e req))
    \<and> map (map_sum id Version) (fst (upsert_all e st accountID (req # reqs)))
        = map Inr (expected_versions (known_versions st acct slug)
                     (map (request_hash e) (req # reqs)))
    \<and> (story_versions_of st acct slug = [] \<longrightarrow>
         map version (story_versions_of (snd (upsert_all e st accountID (req # reqs))) acct slug)
           = map int [1..<Suc (card (request_hash e ` set (req # reqs)))]
         \<and> (distinct (map (request_hash e) (req # reqs)) \<longrightarrow>
              map (map_sum id Version) (fst (upsert_all e st accountID (req # reqs)))
                = map (\<lambda>n. Inr (int n)) [1..<Suc (length (req # reqs))]))"
proof (intro conjI impI)
  assume nin: "request_hash e req \<notin> content_hash ` set (story_versions_of st acct slug)"
  from accepted obtain ing where ing: "Ingest e (request_input req) = Inr ing" "Slug ing = slug"
    by auto
  let ?vs = "story_versions_of st acct slug"
  from nin have none: "map_of (map (\<lambda>v. (content_hash v, version v)) ?vs) (request_hash e req) = None"
    by (simp add: map_of_eq_None_iff image_image)
  from upsert_step[OF ok account ing(1)] none obtain resp st1 where
    a: "AdminDraftUpsert e st accountID req = (Inr resp, st1)"
    and n: "Version resp = next_number (map version ?vs)"
    and sv: "story_versions st1
               = story_versions st
                 @ [\<lparr>v_id = StoryVersionID resp, v_story_id = StoryID resp,
                      version = Version resp, v_frontmatter = Frontmatter ing,
                      v_markdown = Markdown ing, v_rendered_html = RenderedHTML ing,
                      content_hash = request_hash e req\<rparr>]"
    and so: "story_versions_of st1 acct slug
               = ?vs @ [\<lparr>v_id = StoryVersionID resp, v_story_id = StoryID resp,
                      version = Version resp, v_frontmatter = Frontmatter ing,
                      v_markdown = Markdown ing, v_rendered_html = RenderedHTML ing,
                      content_hash = request_hash e req\<rparr>]"
    unfolding ing(2) by auto
  have "Version resp = (if ?vs = [] then 1 else Max (version ` set ?vs) + 1)"
    using n by (simp add: next_number_def)
  with a sv so show "\<exists>resp st1 row. AdminDraftUpsert e st accountID req = (Inr resp, st1)
         \<and> Version resp = (if ?vs = [] then 1 else Max (version ` set ?vs) + 1)
         \<and> story_versions st1 = story_versions st @ [row]
         \<and> story_versions_of st1 acct slug = ?vs @ [row]
         \<and> v_id row = StoryVersionID resp \<and> v_story_id row = StoryID resp
         \<and> version row = Version resp \<and> content_hash row = request_hash e req"
    by (intro exI[of _ resp] exI[of _ st1]
          exI[of _ "\<lparr>v_id = StoryVersionID resp, v_story_id = StoryID resp,
                      version = Version resp, v_frontmatter = Frontmatter ing,
                      v_markdown = Markdown ing, v_rendered_html = RenderedHTML ing,
                      content_hash = request_hash e req\<rparr>"]) simp
next
  show "map (map_sum id Version) (fst (upsert_all e st accountID (req # reqs)))
        = map Inr (expected_versions (known_versions st acct slug)
                     (map (request_hash e) (req # reqs)))"
    using ok accepted by (rule upsert_all_expected[OF account])
next
  assume e: "story_versions_of st acct slug = []"
  then have k: "known_versions st acct slug = []"
    by (simp add: known_versions_def)
  let ?st' = "snd (upsert_all e st accountID (req # reqs))"
  from upsert_all_known[OF account ok accepted] k have
    i: "map snd (known_versions ?st' acct slug)
          = map int [1..<Suc (length (known_versions ?st' acct slug))]"
      "distinct (map fst (known_versions ?st' acct slug))"
      "fst ` set (known_versions ?st' acct slug) = request_hash e ` set (req # reqs)"
    by simp_all
  have "length (known_versions ?st' acct slug) = card (set (map fst (known_versions ?st' acct slug)))"
    using i(2) by (simp only: distinct_card length_map)
  also have "\<dots> = card (request_hash e ` set (req # reqs))"
    using i(3) by simp
  finally have "length (known_versions ?st' acct slug) = card (request_hash e ` set (req # reqs))" .
  with i(1) show "map version (story_versions_of ?st' acct slug)
           = map int [1..<Suc (card (request_hash e ` set (req # reqs)))]"
    by (simp add: known_versions_def o_def)
next
  assume e: "story_versions_of st acct slug = []"
    and d: "distinct (map (request_hash e) (req # reqs))"
  from e have k: "known_versions st acct slug = []"
    by (simp add: known_versions_def)
  define rs where "rs = req # reqs"
  have d': "distinct (map (request_hash e) rs)"
    using d by (simp only: rs_def)
  have "expected_versions [] (map (request_hash e) rs)
        = map int [Suc (length ([] :: (string \<times> int) list))
                   ..<Suc (length ([] :: (string \<times> int) list) + length (map (request_hash e) rs))]"
    by (rule expected_versions_distinct) (simp_all add: d')
  then have ex: "expected_versions [] (map (request_hash e) rs) = map int [1..<Suc (length rs)]"
    by (simp del: upt_Suc)
  have "map (map_sum id Version) (fst (upsert_all e st accountID rs))
        = map Inr (expected_versions (known_versions st acct slug) (map (request_hash e) rs))"
    using upsert_all_expected[OF account ok accepted] by (simp only: rs_def)
  then have "map (map_sum id Version) (fst (upsert_all e st accountID rs))
        = map (\<lambda>n. Inr (int n)) [1..<Suc (length rs)]"
    by (simp only: k ex map_map o_def)
  then show "map (map_sum id Version) (fst (upsert_all e st accountID (req # reqs)))
                = map (\<lambda>n. Inr (int n)) [1..<Suc (length (req # reqs))]"
    by (simp only: rs_def)
qed

section \<open>What a new version stores\<close>

lemma length_section_args: "length (section_args nc byStart cur sgs) = length sgs"
  by (induction sgs arbitrary: cur) (simp, cases nc, simp_all)

lemma filter_all: "\<forall>x \<in> set xs. P x \<Longrightarrow> filter P xs = xs"
  by (induction xs) simp_all

lemma filter_none: "\<forall>x \<in> set xs. \<not> P x \<Longrightarrow> filter P xs = []"
  by (induction xs) simp_all

lemma AdminDraftUpsert_Inr:
  assumes "AdminDraftUpsert e st accountID req = (Inr resp, st')"
  obtains ing where "TrimSpace accountID \<noteq> []" "Ingest e (request_input req) = Inr ing"
    "draft_tx e st (TrimSpace accountID) ing = Inr (resp, st')"
  using assms
  by (auto simp: AdminDraftUpsert_def split: if_splits sum.splits prod.splits)

text \<open>
  A call that returns a version the table did not hold has stored that version: its
  sections and its segments are the rows of the two loops.
\<close>

lemma AdminDraftUpsert_new:
  assumes ok: "db_ok st"
    and up: "AdminDraftUpsert e st accountID req = (Inr resp, st')"
    and new: "StoryVersionID resp \<notin> v_id ` set (story_versions st)"
    and ing: "Ingest e (request_input req) = Inr ing"
  defines "vid \<equiv> StoryVersionID resp"
    and "chs \<equiv> collect_chapters [] (Segments ing)"
  shows "sections_of st' vid
         = (if chs = []
            then [\<lparr>sec_id = Suc vid, sec_story_version_id = vid, sec_kind = ''section'',
                    sec_title = None, sec_ordinal = 1\<rparr>]
            else map (chapter_row vid) (enumerate (Suc vid) chs))"
    and "segments_of st' vid
         = map (segment_row_of vid)
             (enumerate (Suc vid + (if chs = [] then 1 else length chs))
                (zip (section_args (chs = [])
                        (if chs = [] then [1 \<mapsto> Suc vid]
                         else foldl (\<lambda>m p. m(StartSegOrdinal (snd p) \<mapsto> fst p)) Map.empty
                                (enumerate (Suc vid) chs))
                        None (Segments ing))
                     (Segments ing)))"
    and "resp_RenderedHTML resp = RenderedHTML ing"
proof -
  from up obtain ing' where a: "TrimSpace accountID \<noteq> []" "Ingest e (request_input req) = Inr ing'"
    and tx': "draft_tx e st (TrimSpace accountID) ing' = Inr (resp, st')"
    by (rule AdminDraftUpsert_Inr)
  from a(2) ing have "ing' = ing" by simp
  with tx' have tx: "draft_tx e st (TrimSpace accountID) ing = Inr (resp, st')" by simp
  from tx have main: "\<exists>acct sid st1. pg_uuid_in e (TrimSpace accountID) = Some acct
      \<and> upsert_story st acct ing = (sid, st1)
      \<and> select_version_by_hash st1 sid (ContentHash ing) = None"
  proof (cases rule: draft_tx_Inr)
    case (hit acct sid st1 existing)
    from hit(3) have "existing \<in> set (story_versions st1)"
      unfolding select_version_by_hash_def by (auto simp: find_Some_iff)
    then have "v_id existing \<in> v_id ` set (story_versions st)"
      using upsert_story_frame(1)[OF hit(2)] by simp
    with new hit(5) show ?thesis by simp
  next
    case (new acct sid st1 vid st2 byStart st3 st4)
    then show ?thesis by blast
  qed
  then obtain acct sid st1 where account: "pg_uuid_in e (TrimSpace accountID) = Some acct"
    and u: "upsert_story st acct ing = (sid, st1)"
    and none: "select_version_by_hash st1 sid (ContentHash ing) = None"
    by blast
  note ok1 = db_ok_upsert_story[OF ok u]
  note f1 = upsert_story_frame[OF u]
  from draft_tx_new[OF ok account u none Ingest_distinct_ordinals[OF ing]] tx
  have v: "vid = next_uuid st1"
    and r: "resp_RenderedHTML resp = RenderedHTML ing"
    and sec: "story_sections st'
         = story_sections st
           @ (if chs = []
              then [\<lparr>sec_id = Suc vid, sec_story_version_id = vid, sec_kind = ''section'',
                      sec_title = None, sec_ordinal = 1\<rparr>]
              else map (chapter_row vid) (enumerate (Suc vid) chs))"
    and seg: "story_segments st'
         = story_segments st
           @ map (segment_row_of vid)
             (enumerate (Suc vid + (if chs = [] then 1 else length chs))
                (zip (section_args (chs = [])
                        (if chs = [] then [1 \<mapsto> Suc vid]
                         else foldl (\<lambda>m p. m(StartSegOrdinal (snd p) \<mapsto> fst p)) Map.empty
                                (enumerate (Suc vid) chs))
                        None (Segments ing))
                     (Segments ing)))"
    unfolding vid_def chs_def by auto
  have old_sec: "filter (\<lambda>s. sec_story_version_id s = vid) (story_sections st) = []"
    using ok1(1) unfolding v f1(2)[symmetric]
    by (intro filter_none) (auto simp: db_ok_def list_all_iff)
  have old_seg: "filter (\<lambda>g. sg_story_version_id g = vid) (story_segments st) = []"
    using ok1(1) unfolding v f1(3)[symmetric]
    by (intro filter_none) (auto simp: db_ok_def list_all_iff)
  show "sections_of st' vid
         = (if chs = []
            then [\<lparr>sec_id = Suc vid, sec_story_version_id = vid, sec_kind = ''section'',
                    sec_title = None, sec_ordinal = 1\<rparr>]
            else map (chapter_row vid) (enumerate (Suc vid) chs))"
    unfolding sections_of_def sec filter_append old_sec
    by (simp add: filter_all chapter_row_def)
  show "segments_of st' vid
         = map (segment_row_of vid)
             (enumerate (Suc vid + (if chs = [] then 1 else length chs))
                (zip (section_args (chs = [])
                        (if chs = [] then [1 \<mapsto> Suc vid]
                         else foldl (\<lambda>m p. m(StartSegOrdinal (snd p) \<mapsto> fst p)) Map.empty
                                (enumerate (Suc vid) chs))
                        None (Segments ing))
                     (Segments ing)))"
    unfolding segments_of_def seg filter_append old_seg
    by (simp add: filter_all segment_row_of_def)
  show "resp_RenderedHTML resp = RenderedHTML ing" by (rule r)
qed

section \<open>The preview\<close>

lemma Ingest_same_markdown:
  assumes out: "Ingest e inp = Inr out"
    and md: "in_Markdown inp' = in_Markdown inp"
    and title: "TrimSpace (in_Title inp') \<noteq> []"
    and slug: "TrimSpace (in_Slug inp') \<noteq> []" "slugRe_MatchString (TrimSpace (in_Slug inp'))"
  shows "\<exists>out'. Ingest e inp' = Inr out' \<and> Segments out' = Segments out
           \<and> RenderedHTML out' = RenderedHTML out"
proof -
  note f = Ingest_Inr[OF out]
  obtain fm body where sp: "splitFrontmatter e (in_Markdown inp) = (fm, body)"
    by (cases "splitFrontmatter e (in_Markdown inp)")
  from f(5) sp have r: "render e body = Some (RenderedHTML out)" by simp
  from f(11) sp have s: "Segments out = segment_blocks e body 1 0 0 (goldmark_parse e body)" by simp
  from f(4) md title slug sp r s show ?thesis
    by (simp add: Ingest_def Let_def ValidateSlug_def)
qed

lemma AdminPreview_Ingest:
  assumes "Ingest e inp = Inr out" "in_Markdown inp = markdown"
  shows "\<exists>p. AdminPreview e markdown = Inr p
     \<and> pv_Segments p = map (\<lambda>sg. \<lparr>as_Ordinal = Ordinal sg, as_Locator = Locator sg,
                                     as_RenderedHTML = seg_RenderedHTML sg\<rparr>) (Segments out)
     \<and> pv_RenderedHTML p = RenderedHTML out"
proof -
  let ?inp = "\<lparr>in_Slug = ''preview'', in_Title = ''Preview'', in_Author = [],
                in_Markdown = markdown, in_Language = ''en-GB'', in_SourceURL = [],
                in_Rights = None\<rparr>"
  have t: "TrimSpace ''Preview'' \<noteq> []" "TrimSpace ''preview'' \<noteq> []"
    "slugRe_MatchString (TrimSpace ''preview'')"
    by code_simp+
  have "\<exists>out'. Ingest e ?inp = Inr out' \<and> Segments out' = Segments out
           \<and> RenderedHTML out' = RenderedHTML out"
    using assms(1) by (rule Ingest_same_markdown) (simp_all add: assms(2) t)
  then show ?thesis
    by (auto simp: AdminPreview_def)
qed

lemma map_segment_rows:
  assumes "length args = length sgs"
  shows "map (\<lambda>g. \<lparr>as_Ordinal = sg_ordinal g, as_Locator = sg_locator g,
                    as_RenderedHTML = sg_rendered_html g\<rparr>)
           (map (segment_row_of vid) (enumerate n (zip args sgs)))
         = map (\<lambda>sg. \<lparr>as_Ordinal = Ordinal sg, as_Locator = Locator sg,
                        as_RenderedHTML = seg_RenderedHTML sg\<rparr>) sgs"
  using assms
proof (induction sgs arbitrary: args n)
  case Nil
  then show ?case by simp
next
  case (Cons sg sgs)
  then obtain a as where "args = a # as" "length as = length sgs"
    by (cases args) simp_all
  with Cons.IH[of as "Suc n"] show ?case
    by (simp add: segment_row_of_def)
qed

text \<open>
  Claim C5. Whenever \<open>AdminDraftUpsert\<close> succeeds for a request, \<open>AdminPreview\<close> succeeds
  for the markdown of that request, and its segments are, field by field (ordinal, locator,
  rendered HTML), the segments \<open>Ingest\<close> computed for the request, which are those of the
  body after the frontmatter alone; and when the call stored a new version, the rows of
  \<open>story_segments\<close> of that version, in the order of the table, are those segments, and
  the stored HTML of the whole is that of the preview. (On a hash hit the call writes no
  segment.)
\<close>

theorem preview_matches_upsert:
  assumes ok: "db_ok st"
    and up: "AdminDraftUpsert e st accountID req = (Inr resp, st')"
  shows "\<exists>p ing. AdminPreview e (req_Markdown req) = Inr p
     \<and> Ingest e (request_input req) = Inr ing
     \<and> Segments ing
         = segment_blocks e (snd (splitFrontmatter e (req_Markdown req))) 1 0 0
             (goldmark_parse e (snd (splitFrontmatter e (req_Markdown req))))
     \<and> pv_Segments p = map (\<lambda>sg. \<lparr>as_Ordinal = Ordinal sg, as_Locator = Locator sg,
                                     as_RenderedHTML = seg_RenderedHTML sg\<rparr>) (Segments ing)
     \<and> (StoryVersionID resp \<notin> v_id ` set (story_versions st) \<longrightarrow>
          stored_segments st' (StoryVersionID resp) = pv_Segments p
          \<and> resp_RenderedHTML resp = pv_RenderedHTML p)"
proof -
  from up obtain ing where ing: "Ingest e (request_input req) = Inr ing"
    by (rule AdminDraftUpsert_Inr)
  have md: "in_Markdown (request_input req) = req_Markdown req"
    by (simp add: request_input_def)
  from AdminPreview_Ingest[OF ing md] obtain p where
    p: "AdminPreview e (req_Markdown req) = Inr p"
      "pv_Segments p = map (\<lambda>sg. \<lparr>as_Ordinal = Ordinal sg, as_Locator = Locator sg,
                                     as_RenderedHTML = seg_RenderedHTML sg\<rparr>) (Segments ing)"
      "pv_RenderedHTML p = RenderedHTML ing"
    by blast
  have s: "Segments ing
         = segment_blocks e (snd (splitFrontmatter e (req_Markdown req))) 1 0 0
             (goldmark_parse e (snd (splitFrontmatter e (req_Markdown req))))"
    using Ingest_Inr(11)[OF ing] by (simp only: md)
  have n: "stored_segments st' (StoryVersionID resp) = pv_Segments p
          \<and> resp_RenderedHTML resp = pv_RenderedHTML p"
    if new: "StoryVersionID resp \<notin> v_id ` set (story_versions st)"
  proof -
    note st = AdminDraftUpsert_new[OF ok up new ing]
    show ?thesis
      unfolding stored_segments_def st(2) p(2) p(3) st(3)
      by (simp only: map_segment_rows[OF length_section_args] simp_thms)
  qed
  from p(1) ing s p(2) n show ?thesis
    by blast
qed

section \<open>Chapters\<close>

text \<open>Every locator that \<open>Ingest\<close> writes can be read back.\<close>

lemma lower_ascii_keys:
  "lower_ascii ''h'' = ''h''" "lower_ascii ''index'' = ''index''" "lower_ascii ''type'' = ''type''"
  "lower_ascii ''n'' = ''n''" "lower_ascii ''kind'' = ''kind''"
  by code_simp+

lemma unmarshal_heading:
  "unmarshal_headingLoc (JObject [(''h'', JNumber l), (''index'', JNumber i), (''type'', JString ''heading'')])
   = (\<lparr>hl_Type = ''heading'', hl_H = l, hl_Index = i\<rparr>, True)"
  by (simp add: unmarshal_headingLoc_def lower_ascii_keys)

lemma unmarshal_para:
  "unmarshal_headingLoc (JObject [(''n'', JNumber n), (''type'', JString ''para'')])
   = (\<lparr>hl_Type = ''para'', hl_H = 0, hl_Index = 0\<rparr>, True)"
  by (simp add: unmarshal_headingLoc_def lower_ascii_keys)

lemma unmarshal_block:
  "unmarshal_headingLoc (JObject [(''kind'', JString k), (''type'', JString ''block'')])
   = (\<lparr>hl_Type = ''block'', hl_H = 0, hl_Index = 0\<rparr>, True)"
  by (simp add: unmarshal_headingLoc_def lower_ascii_keys)

lemma segment_blocks_locators:
  "\<forall>sg \<in> set (segment_blocks e src ord p h ns). snd (unmarshal_headingLoc (Locator sg))"
  by (induction e src ord p h ns rule: segment_blocks.induct)
     (simp_all add: Let_def unmarshal_heading unmarshal_para unmarshal_block)

lemma segment_blocks_levels:
  "\<forall>sg \<in> set (segment_blocks e src ord p h ns).
     (is_h1 sg \<longleftrightarrow> (\<exists>i. Locator sg = JObject [(''h'', JNumber 1), (''index'', JNumber i),
                                                  (''type'', JString ''heading'')]))
     \<and> (is_h2 sg \<longleftrightarrow> (\<exists>i. Locator sg = JObject [(''h'', JNumber 2), (''index'', JNumber i),
                                                    (''type'', JString ''heading'')]))"
  by (induction e src ord p h ns rule: segment_blocks.induct)
     (simp_all add: Let_def is_h1_def is_h2_def unmarshal_heading unmarshal_para unmarshal_block)

lemma Ingest_chapters:
  assumes "Ingest e inp = Inr ing"
  shows "collect_chapters [] (Segments ing)
         = map (\<lambda>p. chapter_at (fst p) (snd p)) (enumerate 0 (filter is_h2 (Segments ing)))"
proof -
  have "\<forall>sg \<in> set (Segments ing). snd (unmarshal_headingLoc (Locator sg))"
    unfolding Ingest_Inr(11)[OF assms] by (rule segment_blocks_locators)
  from collect_chapters_eq[OF this, of "[]"] show ?thesis by simp
qed

text \<open>The map from the first ordinal of a chapter to its section.\<close>

lemma foldl_upd_other:
  "k \<notin> set (map (\<lambda>p. StartSegOrdinal (snd p)) ps) \<Longrightarrow>
   foldl (\<lambda>m p. m(StartSegOrdinal (snd p) \<mapsto> fst p)) m ps k = m k"
  by (induction ps arbitrary: m) simp_all

lemma foldl_upd_nth:
  "distinct (map (\<lambda>p. StartSegOrdinal (snd p)) ps) \<Longrightarrow> j < length ps \<Longrightarrow>
   foldl (\<lambda>m p. m(StartSegOrdinal (snd p) \<mapsto> fst p)) m ps (StartSegOrdinal (snd (ps ! j)))
   = Some (fst (ps ! j))"
proof (induction ps arbitrary: m j)
  case Nil
  then show ?case by simp
next
  case (Cons p ps)
  show ?case
  proof (cases j)
    case 0
    from Cons.prems(1) have "StartSegOrdinal (snd p) \<notin> set (map (\<lambda>p. StartSegOrdinal (snd p)) ps)"
      by simp
    from foldl_upd_other[OF this, of "m(StartSegOrdinal (snd p) \<mapsto> fst p)"] 0 show ?thesis
      by (simp del: fun_upd_apply) simp
  next
    case (Suc j')
    with Cons.prems Cons.IH[of j' "m(StartSegOrdinal (snd p) \<mapsto> fst p)"] show ?thesis
      by (simp del: fun_upd_apply)
  qed
qed

lemma byStart_heading:
  assumes d: "distinct (map Ordinal sgs)"
    and j: "j < length (filter is_h2 sgs)"
  shows "foldl (\<lambda>m p. m(StartSegOrdinal (snd p) \<mapsto> fst p)) Map.empty
           (enumerate base (map (\<lambda>p. chapter_at (fst p) (snd p)) (enumerate 0 (filter is_h2 sgs))))
           (Ordinal (filter is_h2 sgs ! j))
         = Some (base + j)"
proof -
  let ?hs = "filter is_h2 sgs"
  let ?chs = "map (\<lambda>p. chapter_at (fst p) (snd p)) (enumerate 0 ?hs)"
  let ?ps = "enumerate base ?chs"
  have m: "map (\<lambda>p. StartSegOrdinal (snd p)) ?ps = map Ordinal ?hs"
    by (rule nth_equalityI) (simp_all add: nth_enumerate_eq chapter_at_def)
  have "distinct (map Ordinal ?hs)"
    using d by (rule distinct_map_filter)
  then have dd: "distinct (map (\<lambda>p. StartSegOrdinal (snd p)) ?ps)"
    by (simp only: m)
  have jj: "j < length ?ps"
    using j by simp
  from foldl_upd_nth[OF dd jj, of Map.empty] j show ?thesis
    by (simp add: nth_enumerate_eq chapter_at_def)
qed

text \<open>The second loop, in a version that has chapters.\<close>

lemma h1_not_h2: "is_h1 sg \<Longrightarrow> \<not> is_h2 sg"
  by (simp add: is_h1_def is_h2_def)

lemma section_args_chapters:
  assumes bs: "\<forall>j < length (filter is_h2 all). byStart (Ordinal (filter is_h2 all ! j)) = Some (base + j)"
  shows "all = pre @ suf \<Longrightarrow>
     cur = (if filter is_h2 pre = [] then None else Some (base + (length (filter is_h2 pre) - 1))) \<Longrightarrow>
     section_args False byStart cur suf
     = map (\<lambda>i. map_option (\<lambda>k. base + (k - 1)) (chapter_of all i)) [length pre..<length all]"
proof (induction suf arbitrary: pre cur)
  case Nil
  then show ?case by simp
next
  case (Cons sg suf)
  let ?k = "length (filter is_h2 pre)"
  have all: "all = (pre @ [sg]) @ suf"
    using Cons.prems(1) by simp
  have nth: "all ! length pre = sg" and tk: "take (Suc (length pre)) all = pre @ [sg]"
    using Cons.prems(1) by simp_all
  have co: "chapter_of all (length pre)
            = (if is_h1 sg \<or> filter is_h2 (pre @ [sg]) = [] then None
               else Some (length (filter is_h2 (pre @ [sg]))))"
    by (simp only: chapter_of_def nth tk)
  have start: "byStart (Ordinal sg) = Some (base + ?k)" if "is_h2 sg"
  proof -
    from that have "filter is_h2 all = filter is_h2 pre @ sg # filter is_h2 suf"
      using Cons.prems(1) by simp
    then have "?k < length (filter is_h2 all)" "filter is_h2 all ! ?k = sg"
      by (simp_all add: nth_append)
    with bs show ?thesis by auto
  qed
  have a: "fst (assign_section byStart cur sg)
           = map_option (\<lambda>k. base + (k - 1)) (chapter_of all (length pre))"
    and c: "snd (assign_section byStart cur sg)
           = (if filter is_h2 (pre @ [sg]) = [] then None
              else Some (base + (length (filter is_h2 (pre @ [sg])) - 1)))"
  proof -
    consider (h1) "is_h1 sg" | (h2) "is_h2 sg" | (other) "\<not> is_h1 sg" "\<not> is_h2 sg"
      by blast
    then have "fst (assign_section byStart cur sg)
           = map_option (\<lambda>k. base + (k - 1)) (chapter_of all (length pre))
        \<and> snd (assign_section byStart cur sg)
           = (if filter is_h2 (pre @ [sg]) = [] then None
              else Some (base + (length (filter is_h2 (pre @ [sg])) - 1)))"
    proof cases
      case h1
      then have "assign_section byStart cur sg = (None, cur)"
        by (simp add: assign_section_def is_h1_def Let_def)
      with h1 h1_not_h2[OF h1] Cons.prems(2) show ?thesis
        by (simp add: co)
    next
      case h2
      then have n1: "\<not> is_h1 sg" using h1_not_h2 by blast
      from h2 n1 start[OF h2] have "assign_section byStart cur sg = (Some (base + ?k), Some (base + ?k))"
        by (simp add: assign_section_def is_h1_def is_h2_def Let_def)
      with h2 n1 show ?thesis
        by (simp add: co)
    next
      case other
      then have "assign_section byStart cur sg = (cur, cur)"
        by (cases cur) (auto simp: assign_section_def is_h1_def is_h2_def Let_def)
      with other Cons.prems(2) show ?thesis
        by (simp add: co)
    qed
    then show "fst (assign_section byStart cur sg)
           = map_option (\<lambda>k. base + (k - 1)) (chapter_of all (length pre))"
      and "snd (assign_section byStart cur sg)
           = (if filter is_h2 (pre @ [sg]) = [] then None
              else Some (base + (length (filter is_h2 (pre @ [sg])) - 1)))"
      by simp_all
  qed
  have ih: "section_args False byStart (snd (assign_section byStart cur sg)) suf
     = map (\<lambda>i. map_option (\<lambda>k. base + (k - 1)) (chapter_of all i)) [length (pre @ [sg])..<length all]"
    using all c by (rule Cons.IH)
  have lt: "length pre < length all"
    using Cons.prems(1) by simp
  have "[length pre..<length all] = length pre # [Suc (length pre)..<length all]"
    using lt by (rule upt_conv_Cons)
  then show ?case
    using a ih by simp
qed

lemma section_args_single:
  "section_args True byStart cur sgs = replicate (length sgs) (byStart 1)"
  by (induction sgs) simp_all

lemma segment_rows_nth:
  assumes "length args = length sgs" "i < length sgs"
  shows "map (segment_row_of vid) (enumerate n (zip args sgs)) ! i
         = segment_row_of vid (n + i, args ! i, sgs ! i)"
  using assms by (simp add: nth_enumerate_eq)

lemma filter_take_le: "length (filter P (take n xs)) \<le> length (filter P xs)"
proof -
  have "filter P xs = filter P (take n xs) @ filter P (drop n xs)"
    by (simp only: filter_append[symmetric] append_take_drop_id)
  then show ?thesis by simp
qed

lemma sec_id_chapter_rows: "map sec_id (map (chapter_row vid) ps) = map fst ps"
  by (induction ps) (simp_all add: chapter_row_def)

lemma chapter_of_Some:
  assumes "chapter_of sgs i = Some k"
  shows "0 < k" "k \<le> length (filter is_h2 sgs)"
  using assms filter_take_le[of is_h2 "Suc i" sgs]
  by (auto simp: chapter_of_def split: if_splits)

text \<open>
  Claim C3. For a version that \<open>AdminDraftUpsert\<close> stores (on a database that keeps its
  constraints), with the segments \<open>Ingest\<close> returned: the segment rows of the version
  are those segments, in order; a segment counts as a heading of level 1 or 2 exactly when
  its locator is that of a heading with \<open>h\<close> 1 or 2. When some segment is a level-2 heading, the sections of the
  version are one per level-2 heading segment, in document order, of kind \<open>chapter\<close>, the
  j-th with ordinal j and with the text of its heading as title, or \<open>Chapter j\<close> when
  that text is blank; and the section of each segment is given by \<open>chapter_of\<close>: none for
  a level-1 heading and for a segment before the first level-2 heading, else the chapter of
  the last level-2 heading at or before the segment, so that a chapter holds its heading
  and what follows up to the next level-2 heading, level-1 headings apart. When no segment
  is a level-2 heading, the version has exactly one section, of kind \<open>section\<close>, without
  title, with ordinal 1, and every segment row names it. The ids of the sections are
  pairwise distinct.
\<close>

theorem chapter_inference:
  assumes ok: "db_ok st"
    and up: "AdminDraftUpsert e st accountID req = (Inr resp, st')"
    and new: "StoryVersionID resp \<notin> v_id ` set (story_versions st)"
    and ing: "Ingest e (request_input req) = Inr ing"
  shows
   "(let sgs = Segments ing;
         heads = filter is_h2 sgs;
         secs = sections_of st' (StoryVersionID resp);
         segs = segments_of st' (StoryVersionID resp)
     in map (\<lambda>g. (sg_ordinal g, sg_locator g, sg_markdown g)) segs
          = map (\<lambda>s. (Ordinal s, Locator s, seg_Markdown s)) sgs
        \<and> (\<forall>sg \<in> set sgs.
              (is_h1 sg \<longleftrightarrow> (\<exists>i. Locator sg = JObject [(''h'', JNumber 1), (''index'', JNumber i),
                                                           (''type'', JString ''heading'')]))
              \<and> (is_h2 sg \<longleftrightarrow> (\<exists>i. Locator sg = JObject [(''h'', JNumber 2), (''index'', JNumber i),
                                                             (''type'', JString ''heading'')])))
        \<and> distinct (map sec_id secs)
        \<and> (heads \<noteq> [] \<longrightarrow>
             map (\<lambda>s. (sec_kind s, sec_title s, sec_ordinal s)) secs
               = map (\<lambda>p. (''chapter'', Some (chapter_title (snd p) (Suc (fst p))), int (fst p) + 1))
                   (enumerate 0 heads)
             \<and> (\<forall>i < length sgs.
                   section_id (segs ! i)
                   = map_option (\<lambda>k. sec_id (secs ! (k - 1))) (chapter_of sgs i)))
        \<and> (heads = [] \<longrightarrow>
             map (\<lambda>s. (sec_kind s, sec_title s, sec_ordinal s)) secs = [(''section'', None, 1)]
             \<and> (\<forall>g \<in> set segs. section_id g = Some (sec_id (hd secs)))))"
proof -
  define sgs where "sgs = Segments ing"
  define heads where "heads = filter is_h2 sgs"
  define vid where "vid = StoryVersionID resp"
  define chs where "chs = map (\<lambda>p. chapter_at (fst p) (snd p)) (enumerate 0 heads)"
  define byStart where "byStart = (if chs = [] then [1 \<mapsto> Suc vid]
                         else foldl (\<lambda>m p. m(StartSegOrdinal (snd p) \<mapsto> fst p)) Map.empty
                                (enumerate (Suc vid) chs))"
  define n where "n = Suc vid + (if chs = [] then 1 else length chs)"
  define args where "args = section_args (chs = []) byStart None sgs"
  define secs where "secs = sections_of st' vid"
  define segs where "segs = segments_of st' vid"
  have cc: "collect_chapters [] (Segments ing) = chs"
    unfolding chs_def heads_def sgs_def by (rule Ingest_chapters[OF ing])
  note stored = AdminDraftUpsert_new[OF ok up new ing, unfolded cc]
  have secs: "secs = (if chs = []
            then [\<lparr>sec_id = Suc vid, sec_story_version_id = vid, sec_kind = ''section'',
                    sec_title = None, sec_ordinal = 1\<rparr>]
            else map (chapter_row vid) (enumerate (Suc vid) chs))"
    unfolding secs_def vid_def by (rule stored(1))
  have segs: "segs = map (segment_row_of vid) (enumerate n (zip args sgs))"
    unfolding segs_def vid_def n_def args_def byStart_def sgs_def by (rule stored(2))
  have la: "length args = length sgs"
    unfolding args_def by (rule length_section_args)
  have ls: "length segs = length sgs"
    unfolding segs using la by simp
  have nth: "segs ! i = segment_row_of vid (n + i, args ! i, sgs ! i)" if "i < length sgs" for i
    unfolding segs using la that by (rule segment_rows_nth)
  have lc: "length chs = length heads"
    unfolding chs_def by simp
  have e: "(chs = []) = (heads = [])"
    using lc by (simp only: length_0_conv[symmetric])
  have d: "distinct (map Ordinal sgs)"
    unfolding sgs_def by (rule Ingest_distinct_ordinals[OF ing])
  have p1: "map (\<lambda>g. (sg_ordinal g, sg_locator g, sg_markdown g)) segs
          = map (\<lambda>s. (Ordinal s, Locator s, seg_Markdown s)) sgs"
    by (rule nth_equalityI) (simp_all add: ls nth segment_row_of_def)
  have p0: "\<forall>sg \<in> set sgs.
              (is_h1 sg \<longleftrightarrow> (\<exists>i. Locator sg = JObject [(''h'', JNumber 1), (''index'', JNumber i),
                                                           (''type'', JString ''heading'')]))
              \<and> (is_h2 sg \<longleftrightarrow> (\<exists>i. Locator sg = JObject [(''h'', JNumber 2), (''index'', JNumber i),
                                                             (''type'', JString ''heading'')]))"
    unfolding sgs_def Ingest_Inr(11)[OF ing] by (rule segment_blocks_levels)
  have p2: "distinct (map sec_id secs)"
  proof (cases "chs = []")
    case True
    then show ?thesis by (simp add: secs)
  next
    case False
    have "map sec_id (map (chapter_row vid) (enumerate (Suc vid) chs)) = map fst (enumerate (Suc vid) chs)"
      by (rule sec_id_chapter_rows)
    then have "distinct (map sec_id (map (chapter_row vid) (enumerate (Suc vid) chs)))"
      by (simp only: map_fst_enumerate distinct_upt)
    with False show ?thesis by (simp only: secs if_False)
  qed
  have p3: "map (\<lambda>s. (sec_kind s, sec_title s, sec_ordinal s)) secs
               = map (\<lambda>p. (''chapter'', Some (chapter_title (snd p) (Suc (fst p))), int (fst p) + 1))
                   (enumerate 0 heads)"
    if h: "heads \<noteq> []"
  proof -
    from h e have s: "secs = map (chapter_row vid) (enumerate (Suc vid) chs)"
      by (simp add: secs)
    show ?thesis
      unfolding s
      by (rule nth_equalityI)
         (simp_all add: lc nth_enumerate_eq chapter_row_def chs_def chapter_at_def)
  qed
  have p4: "section_id (segs ! i) = map_option (\<lambda>k. sec_id (secs ! (k - 1))) (chapter_of sgs i)"
    if h: "heads \<noteq> []" and i: "i < length sgs" for i
  proof -
    from h e have s: "secs = map (chapter_row vid) (enumerate (Suc vid) chs)"
      and b: "byStart = foldl (\<lambda>m p. m(StartSegOrdinal (snd p) \<mapsto> fst p)) Map.empty
                                (enumerate (Suc vid) chs)"
      and a: "args = section_args False byStart None sgs"
      by (simp_all add: secs byStart_def args_def)
    have bs: "\<forall>j < length (filter is_h2 sgs). byStart (Ordinal (filter is_h2 sgs ! j)) = Some (Suc vid + j)"
      unfolding b chs_def heads_def using d by (intro allI impI byStart_heading)
    have "section_args False byStart None sgs
          = map (\<lambda>i. map_option (\<lambda>k. Suc vid + (k - 1)) (chapter_of sgs i)) [length ([] :: Segment list)..<length sgs]"
      using bs by (rule section_args_chapters) simp_all
    with i have ai: "args ! i = map_option (\<lambda>k. Suc vid + (k - 1)) (chapter_of sgs i)"
      by (simp add: a)
    have si: "section_id (segs ! i) = args ! i"
      by (simp add: nth[OF i] segment_row_of_def)
    show ?thesis
    proof (cases "chapter_of sgs i")
      case None
      with si ai show ?thesis by simp
    next
      case (Some k)
      from chapter_of_Some[OF Some] have "k - 1 < length chs"
        by (simp add: lc heads_def)
      then have "sec_id (secs ! (k - 1)) = Suc vid + (k - 1)"
        by (simp add: s nth_enumerate_eq chapter_row_def)
      with si ai Some show ?thesis by simp
    qed
  qed
  have p5: "map (\<lambda>s. (sec_kind s, sec_title s, sec_ordinal s)) secs = [(''section'', None, 1)]"
    and p6: "\<forall>g \<in> set segs. section_id g = Some (sec_id (hd secs))"
    if h: "heads = []"
  proof -
    from h e have s: "secs = [\<lparr>sec_id = Suc vid, sec_story_version_id = vid, sec_kind = ''section'',
                    sec_title = None, sec_ordinal = 1\<rparr>]"
      and a: "args = replicate (length sgs) (Some (Suc vid))"
      by (simp_all add: secs args_def byStart_def section_args_single)
    show "map (\<lambda>s. (sec_kind s, sec_title s, sec_ordinal s)) secs = [(''section'', None, 1)]"
      by (simp add: s)
    show "\<forall>g \<in> set segs. section_id g = Some (sec_id (hd secs))"
    proof
      fix g assume "g \<in> set segs"
      then obtain i where i: "i < length sgs" "g = segs ! i"
        by (auto simp: in_set_conv_nth ls)
      then show "section_id g = Some (sec_id (hd secs))"
        by (simp add: nth segment_row_of_def a s)
    qed
  qed
  from p1 p0 p2 p3 p4 p5 p6 show ?thesis
    unfolding Let_def sgs_def[symmetric] heads_def[symmetric] vid_def[symmetric]
      secs_def[symmetric] segs_def[symmetric]
    by blast
qed

section \<open>The code run on examples\<close>

lemma not_isl_projr: "\<not> isl x \<Longrightarrow> x = Inr (projr x)"
  by (cases x) simp_all

text \<open>
  Claim C7. The claim: an input whose own title is blank but whose frontmatter block gives a
  title is accepted, with the title of the block. The code checks the title before it
  reads the frontmatter: the manuscript below carries \<open>title: Fox\<close> in its block, and
  with a blank title of its own \<open>Ingest\<close> answers that a title is required.
\<close>

theorem blank_title_rejected_before_frontmatter:
  "fst (splitFrontmatter demo_env frontmatter_md) ''title'' = Some (VString ''Fox'')
   \<and> Ingest demo_env ((fox_input frontmatter_md)\<lparr>in_Title := []\<rparr>) = Inl TitleRequired"
proof -
  have "fst (splitFrontmatter demo_env frontmatter_md) ''title'' = Some (VString ''Fox'')"
    by code_simp
  moreover have "TrimSpace [] = []"
    by code_simp
  ultimately show ?thesis
    by (simp add: Ingest_blank_title)
qed

text \<open>
  The manuscript \<open>unclosed_md\<close> in the demo environment: its three lines are the body, and
  its digest is not that of the same text without the opening line.
\<close>

theorem unclosed_frontmatter_witness:
  "Markdown (projr (Ingest demo_env (fox_input unclosed_md))) = unclosed_md
   \<and> ContentHash (projr (Ingest demo_env (fox_input unclosed_md)))
       = ''6aa51a2c450a51ec8e1fe2cca5b85304ba6c029018b8f9e96b6c711bdef81684''
   \<and> ContentHash (projr (Ingest demo_env (fox_input undelimited_md)))
       = ''1e507b33cc89d0185517d10810a45021aabee0f5364e2896934071b112a73ccd''
   \<and> RenderedHTML (projr (Ingest demo_env (fox_input unclosed_md)))
       = ''<hr>\<newline><p>title: Fox\<newline>Once upon a time.</p>\<newline>''
   \<and> map seg_Markdown (Segments (projr (Ingest demo_env (fox_input unclosed_md))))
       = [''title: Fox\<newline>Once upon a time.'']
   \<and> Frontmatter (projr (Ingest demo_env (fox_input unclosed_md))) ''title'' = Some (VString ''The Fox'')
   \<and> Frontmatter (projr (Ingest demo_env (fox_input unclosed_md))) ''age'' = None"
proof -
  let ?inp = "fox_input unclosed_md"
  have h1: "HasPrefix (TrimLeft_bom_ws (in_Markdown ?inp)) ''---\<newline>''
            \<or> HasPrefix (TrimLeft_bom_ws (in_Markdown ?inp)) (''---'' @ [CHR 0x0D, CHR 0x0A])"
    by code_simp
  have h2: "\<forall>l \<in> set (drop 1 (Split (TrimLeft_bom_ws (in_Markdown ?inp)) (CHR 0x0A))).
              TrimSpace l \<noteq> ''---''"
    by code_simp
  have h3: "TrimSpace (in_Title ?inp) \<noteq> []"
    by code_simp
  have h4: "slugRe_MatchString (TrimSpace (in_Slug ?inp))"
    by code_simp
  have h5: "TrimSpace (in_Markdown ?inp) \<noteq> []"
    by code_simp
  have h6: "render demo_env (in_Markdown ?inp)
            = Some ''<hr>\<newline><p>title: Fox\<newline>Once upon a time.</p>\<newline>''"
    by code_simp
  note eq = unclosed_frontmatter_is_body[OF h1 h2 h3 h4 h5 h6]
  have a: "Markdown (projr (Ingest demo_env ?inp)) = unclosed_md"
    by (simp add: eq) (simp add: fox_input_def)
  have b: "ContentHash (projr (Ingest demo_env ?inp))
           = ''6aa51a2c450a51ec8e1fe2cca5b85304ba6c029018b8f9e96b6c711bdef81684''"
    by (simp add: eq) code_simp
  have c: "ContentHash (projr (Ingest demo_env (fox_input undelimited_md)))
           = ''1e507b33cc89d0185517d10810a45021aabee0f5364e2896934071b112a73ccd''"
    by code_simp
  have d: "RenderedHTML (projr (Ingest demo_env ?inp))
           = ''<hr>\<newline><p>title: Fox\<newline>Once upon a time.</p>\<newline>''"
    by (simp add: eq)
  have f: "map seg_Markdown (Segments (projr (Ingest demo_env ?inp)))
           = [''title: Fox\<newline>Once upon a time.'']"
    by (simp add: eq) code_simp
  have g: "Frontmatter (projr (Ingest demo_env ?inp)) ''title'' = Some (VString ''The Fox'')"
    by (simp add: eq) code_simp
  have h: "Frontmatter (projr (Ingest demo_env ?inp)) ''age'' = None"
    by (simp add: eq)
  from a b c d f g h show ?thesis by blast
qed


text \<open>
  The manuscript \<open>blocks_md\<close>: a heading, a paragraph, a thematic break, an HTML block
  and a paragraph. It gives four segments; the blocks they stand for are four of the five,
  the heading and the two paragraphs among them.
\<close>

theorem segments_numbered_witness:
  "map Ordinal (Segments (projr (Ingest demo_env (fox_input blocks_md)))) = [1, 2, 3, 4]
   \<and> map Locator (Segments (projr (Ingest demo_env (fox_input blocks_md))))
       = [JObject [(''h'', JNumber 1), (''index'', JNumber 0), (''type'', JString ''heading'')],
          JObject [(''n'', JNumber 1), (''type'', JString ''para'')],
          JObject [(''kind'', JString ''*ast.HTMLBlock''), (''type'', JString ''block'')],
          JObject [(''n'', JNumber 2), (''type'', JString ''para'')]]
   \<and> map type_name (goldmark_parse demo_env blocks_md)
       = [''*ast.Heading'', ''*ast.Paragraph'', ''*ast.ThematicBreak'', ''*ast.HTMLBlock'',
          ''*ast.Paragraph'']
   \<and> (\<exists>kept. subseq kept (goldmark_parse demo_env blocks_md)
         \<and> length kept = 4
         \<and> filter (\<lambda>n. is_Heading n \<or> is_Paragraph n) kept
             = [Heading 1 [(2, 3)] [Text (2, 3)], Paragraph [(5, 7)] [Text (5, 7)],
                Paragraph [(35, 37)] [Text (35, 37)]])"
proof -
  let ?r = "Ingest demo_env (fox_input blocks_md)"
  have "\<not> isl ?r"
    by code_simp
  then have ok: "?r = Inr (projr ?r)"
    by (rule not_isl_projr)
  have len: "length (Segments (projr ?r)) = 4"
    by code_simp
  have upt: "[0..<4] = [0, 1, 2, 3]"
    by code_simp
  have md: "Markdown (projr ?r) = blocks_md"
    by code_simp
  have hp: "filter (\<lambda>n. is_Heading n \<or> is_Paragraph n) (goldmark_parse demo_env blocks_md)
            = [Heading 1 [(2, 3)] [Text (2, 3)], Paragraph [(5, 7)] [Text (5, 7)],
                Paragraph [(35, 37)] [Text (35, 37)]]"
    by code_simp
  note t = segments_numbered_and_located[OF ok]
  have a: "map Ordinal (Segments (projr ?r)) = [1, 2, 3, 4]"
    using conjunct1[OF t] by (simp add: len upt)
  from conjunct2[OF t] obtain kept where
    k: "subseq kept (goldmark_parse demo_env blocks_md)"
      "filter (\<lambda>n. is_Heading n \<or> is_Paragraph n) kept
       = filter (\<lambda>n. is_Heading n \<or> is_Paragraph n) (goldmark_parse demo_env blocks_md)"
      "length (Segments (projr ?r)) = length kept"
    unfolding md by blast
  have b: "map Locator (Segments (projr ?r))
       = [JObject [(''h'', JNumber 1), (''index'', JNumber 0), (''type'', JString ''heading'')],
          JObject [(''n'', JNumber 1), (''type'', JString ''para'')],
          JObject [(''kind'', JString ''*ast.HTMLBlock''), (''type'', JString ''block'')],
          JObject [(''n'', JNumber 2), (''type'', JString ''para'')]]"
    by code_simp
  have c: "map type_name (goldmark_parse demo_env blocks_md)
       = [''*ast.Heading'', ''*ast.Paragraph'', ''*ast.ThematicBreak'', ''*ast.HTMLBlock'',
          ''*ast.Paragraph'']"
    by code_simp
  from k len hp have d: "\<exists>kept. subseq kept (goldmark_parse demo_env blocks_md)
         \<and> length kept = 4
         \<and> filter (\<lambda>n. is_Heading n \<or> is_Paragraph n) kept
             = [Heading 1 [(2, 3)] [Text (2, 3)], Paragraph [(5, 7)] [Text (5, 7)],
                Paragraph [(35, 37)] [Text (35, 37)]]"
    by (intro exI[of _ kept]) simp
  from a b c d show ?thesis by (intro conjI)
qed

text \<open>
  Claim C6 as stated fails where it says that a top-level block with no visible text gives
  no segment: the manuscript \<open>hidden_md\<close> is a heading with no text and an HTML comment,
  neither block has text content, and \<open>Ingest\<close> returns a segment for each, with the
  ordinals 1 and 2.
\<close>

theorem blocks_without_text_give_segments:
  "goldmark_parse demo_env hidden_md = [Heading 2 [] [], Node ''*ast.HTMLBlock'' [(4, 19)] []]
   \<and> map (textContent hidden_md) (goldmark_parse demo_env hidden_md) = [[], []]
   \<and> \<not> isl (Ingest demo_env (fox_input hidden_md))
   \<and> map Ordinal (Segments (projr (Ingest demo_env (fox_input hidden_md)))) = [1, 2]
   \<and> map seg_Markdown (Segments (projr (Ingest demo_env (fox_input hidden_md))))
       = [''## '', ''<!-- hidden -->'']"
  by code_simp

text \<open>
  The manuscript \<open>frontmatter_md\<close>, whose block has \<open>title: Fox\<close> and \<open>age: 3\<close>,
  ingested with the title \<open>The Fox\<close>.
\<close>

theorem frontmatter_merge_witness:
  "Frontmatter (projr (Ingest demo_env (fox_input frontmatter_md))) ''title'' = Some (VString ''The Fox'')
   \<and> fst (splitFrontmatter demo_env frontmatter_md) ''title'' = Some (VString ''Fox'')
   \<and> Frontmatter (projr (Ingest demo_env (fox_input frontmatter_md))) ''age'' = Some (VInt 3)
   \<and> Frontmatter (projr (Ingest demo_env (fox_input frontmatter_md))) ''language'' = Some (VString ''en-GB'')
   \<and> Frontmatter (projr (Ingest demo_env (fox_input frontmatter_md))) ''sourceUrl'' = None"
proof -
  let ?r = "Ingest demo_env (fox_input frontmatter_md)"
  have "\<not> isl ?r"
    by code_simp
  then have ok: "?r = Inr (projr ?r)"
    by (rule not_isl_projr)
  note t = frontmatter_merge[OF ok]
  have title: "Title (projr ?r) = ''The Fox''"
    by code_simp
  have fm: "fst (splitFrontmatter demo_env (in_Markdown (fox_input frontmatter_md))) ''age'' = Some (VInt 3)"
    by code_simp
  have a: "Frontmatter (projr ?r) ''title'' = Some (VString ''The Fox'')"
    using t title by simp
  have b: "fst (splitFrontmatter demo_env frontmatter_md) ''title'' = Some (VString ''Fox'')"
    by code_simp
  have c: "Frontmatter (projr ?r) ''age'' = Some (VInt 3)"
    using t fm by simp
  have d: "Frontmatter (projr ?r) ''language'' = Some (VString ''en-GB'')"
    by code_simp
  have f: "Frontmatter (projr ?r) ''sourceUrl'' = None"
    by code_simp
  from a b c d f show ?thesis by blast
qed

text \<open>
  Claim C9 as stated fails for the key \<open>sourceUrl\<close>: an input with no source URL and no
  frontmatter block is accepted, and the map returned has no such key.
\<close>

theorem frontmatter_without_sourceUrl:
  "\<not> isl (Ingest demo_env (fox_input fox_md))
   \<and> Frontmatter (projr (Ingest demo_env (fox_input fox_md))) ''sourceUrl'' = None
   \<and> in_SourceURL (fox_input fox_md) = []"
  by code_simp


text \<open>
  The fox story with version 1 published: ingesting the edited manuscript makes version 2
  and points the draft at it, and the published pointer stays at version 1.
\<close>

theorem upsert_keeps_published_witness:
  "published_pointers demo_db2 = [(1, Some 2, True)]
   \<and> published_pointers demo_db3 = [(1, Some 2, True)]
   \<and> draft_pointers demo_db2 = [(1, Some 2)]
   \<and> draft_pointers demo_db3 = [(1, Some 7)]
   \<and> map version (story_versions demo_db3) = [1, 2]"
proof -
  have run: "AdminDraftUpsert demo_env demo_db2 demo_account (fox_request fox2_md)
             = (fst (AdminDraftUpsert demo_env demo_db2 demo_account (fox_request fox2_md)), demo_db3)"
    by (simp add: demo_db3_def)
  have before: "published_pointers demo_db2 = [(1, Some 2, True)]"
    by code_simp
  have len: "length (published_pointers demo_db3) = 1"
    by code_simp
  from upsert_keeps_published[OF run] obtain new where
    new: "published_pointers demo_db3 = published_pointers demo_db2 @ new"
    by blast
  with len before have "new = []"
    by simp
  with new before have after: "published_pointers demo_db3 = [(1, Some 2, True)]"
    by simp
  have d2: "draft_pointers demo_db2 = [(1, Some 2)]"
    by code_simp
  have d3: "draft_pointers demo_db3 = [(1, Some 7)]"
    by code_simp
  have vs: "map version (story_versions demo_db3) = [1, 2]"
    by code_simp
  from before after d2 d3 vs show ?thesis by blast
qed

text \<open>
  Two stories of one account: publishing the fox story's version under the slug of the hen
  story fails with \<open>sql.ErrNoRows\<close>, and the hen story stays unpublished.
\<close>

theorem publish_isolation_witness:
  "map (\<lambda>r. (s_id r, s_slug r)) (stories demo_db4) = [(1, ''fox''), (7, ''hen'')]
   \<and> map (\<lambda>v. (v_id v, v_story_id v)) (story_versions demo_db4) = [(2, 1), (8, 7)]
   \<and> pg_uuid_in demo_env fox_v1 = Some 2
   \<and> fst (AdminPublish demo_env demo_db4 demo_account ''hen'' fox_v1) = Some ErrNoRows
   \<and> snd (AdminPublish demo_env demo_db4 demo_account ''hen'' fox_v1) = demo_db4
   \<and> published_pointers demo_db4 = [(1, Some 2, True), (7, None, False)]"
proof -
  have hyp: "\<forall>r \<in> set (stories demo_db4). \<forall>v \<in> set (story_versions demo_db4).
             pg_uuid_in demo_env (TrimSpace demo_account) = Some (s_account_id r)
             \<and> s_slug r = TrimSpace ''hen''
             \<and> pg_uuid_in demo_env (TrimSpace fox_v1) = Some (v_id v)
             \<longrightarrow> v_story_id v \<noteq> s_id r"
    by code_simp
  have a: "map (\<lambda>r. (s_id r, s_slug r)) (stories demo_db4) = [(1, ''fox''), (7, ''hen'')]"
    by code_simp
  have b: "map (\<lambda>v. (v_id v, v_story_id v)) (story_versions demo_db4) = [(2, 1), (8, 7)]"
    by code_simp
  have c: "pg_uuid_in demo_env fox_v1 = Some 2"
    by code_simp
  have d: "fst (AdminPublish demo_env demo_db4 demo_account ''hen'' fox_v1) = Some ErrNoRows"
    by code_simp
  have f: "published_pointers demo_db4 = [(1, Some 2, True), (7, None, False)]"
    by code_simp
  from publish_isolation[OF hyp] a b c d f show ?thesis by blast
qed


text \<open>
  The fox story with two versions and the draft at the second: ingesting the first
  manuscript again returns version 1 with its id, adds no row and moves the draft back.
\<close>

theorem upsert_same_content_witness:
  "draft_pointers demo_db3 = [(1, Some 7)]
   \<and> map (\<lambda>v. (v_id v, version v)) (story_versions demo_db3) = [(2, 1), (7, 2)]
   \<and> \<not> isl (fst (AdminDraftUpsert demo_env demo_db3 demo_account (fox_request fox_md)))
   \<and> StoryVersionID (projr (fst (AdminDraftUpsert demo_env demo_db3 demo_account (fox_request fox_md)))) = 2
   \<and> Version (projr (fst (AdminDraftUpsert demo_env demo_db3 demo_account (fox_request fox_md)))) = 1
   \<and> SegmentsCount (projr (fst (AdminDraftUpsert demo_env demo_db3 demo_account (fox_request fox_md)))) = 2
   \<and> story_versions (snd (AdminDraftUpsert demo_env demo_db3 demo_account (fox_request fox_md)))
       = story_versions demo_db3
   \<and> story_segments (snd (AdminDraftUpsert demo_env demo_db3 demo_account (fox_request fox_md)))
       = story_segments demo_db3
   \<and> draft_pointers (snd (AdminDraftUpsert demo_env demo_db3 demo_account (fox_request fox_md)))
       = [(1, Some 2)]"
proof -
  let ?ing = "Ingest demo_env (request_input (fox_request fox_md))"
  let ?r = "stories demo_db3 ! 0"
  let ?v = "story_versions demo_db3 ! 0"
  have ok: "db_ok demo_db3"
    by code_simp
  have a1: "TrimSpace demo_account \<noteq> []"
    by code_simp
  have a2: "pg_uuid_in demo_env (TrimSpace demo_account) = Some 7"
    by code_simp
  have "\<not> isl ?ing"
    by code_simp
  then have ing: "?ing = Inr (projr ?ing)"
    by (rule not_isl_projr)
  have "0 < length (stories demo_db3)"
    by code_simp
  then have r: "?r \<in> set (stories demo_db3)"
    by (rule nth_mem)
  have r2: "s_account_id ?r = 7" and r3: "s_slug ?r = Slug (projr ?ing)"
    by code_simp+
  have "0 < length (story_versions demo_db3)"
    by code_simp
  then have v: "?v \<in> set (story_versions demo_db3)"
    by (rule nth_mem)
  have v2: "v_story_id ?v = s_id ?r" and v3: "content_hash ?v = ContentHash (projr ?ing)"
    by code_simp+
  from upsert_same_content[OF ok a1 a2 ing r r2 r3 v v2 v3] obtain st' where
    run: "AdminDraftUpsert demo_env demo_db3 demo_account (fox_request fox_md)
          = (Inr \<lparr>StoryID = s_id ?r, StoryVersionID = v_id ?v, resp_Slug = Slug (projr ?ing),
                   Version = version ?v, SegmentsCount = int (length (Segments (projr ?ing))),
                   resp_RenderedHTML = v_rendered_html ?v\<rparr>, st')"
    and same: "story_versions st' = story_versions demo_db3"
              "story_segments st' = story_segments demo_db3"
    and dp: "draft_pointers st'
             = map (\<lambda>p. if fst p = s_id ?r then (fst p, Some (v_id ?v)) else p)
                 (draft_pointers demo_db3)"
    by blast
  have vals: "v_id ?v = 2" "version ?v = 1" "int (length (Segments (projr ?ing))) = 2"
             "s_id ?r = 1"
    by code_simp+
  have d3: "draft_pointers demo_db3 = [(1, Some 7)]"
    by code_simp
  have vs: "map (\<lambda>v. (v_id v, version v)) (story_versions demo_db3) = [(2, 1), (7, 2)]"
    by code_simp
  from d3 vs same dp show ?thesis
    by (simp add: run vals)
qed



text \<open>
  An empty library and the fox story: the manuscript, an edited manuscript and the first
  manuscript again are answered with 1, 2, 1 and leave the versions 1 and 2; the two
  distinct manuscripts alone are answered with 1, 2; and on the library that holds version
  1, the edited manuscript is stored as the one new row, with number 2.
\<close>

theorem version_numbering_witness:
  "map (map_sum id Version)
     (fst (upsert_all demo_env empty_db demo_account
             [fox_request fox_md, fox_request fox2_md, fox_request fox_md]))
   = [Inr 1, Inr 2, Inr 1]
   \<and> map version
       (story_versions_of
          (snd (upsert_all demo_env empty_db demo_account
                  [fox_request fox_md, fox_request fox2_md, fox_request fox_md])) 7 ''fox'')
     = [1, 2]
   \<and> map (map_sum id Version)
       (fst (upsert_all demo_env empty_db demo_account [fox_request fox_md, fox_request fox2_md]))
     = [Inr 1, Inr 2]
   \<and> map version (story_versions_of demo_db1 7 ''fox'') = [1]
   \<and> (\<exists>resp st1 row.
         AdminDraftUpsert demo_env demo_db1 demo_account (fox_request fox2_md) = (Inr resp, st1)
         \<and> Version resp = 2
         \<and> story_versions st1 = story_versions demo_db1 @ [row]
         \<and> version row = 2 \<and> v_id row = StoryVersionID resp)"
proof -
  let ?i1 = "Ingest demo_env (request_input (fox_request fox_md))"
  let ?i2 = "Ingest demo_env (request_input (fox_request fox2_md))"
  have ok: "db_ok empty_db"
    by code_simp
  have ok1: "db_ok demo_db1"
    by code_simp
  have a1: "TrimSpace demo_account \<noteq> []"
    by code_simp
  have a2: "pg_uuid_in demo_env (TrimSpace demo_account) = Some 7"
    by code_simp
  have n: "\<not> isl ?i1" "\<not> isl ?i2"
    by code_simp+
  have i: "?i1 = Inr (projr ?i1)" "?i2 = Inr (projr ?i2)"
    by (rule not_isl_projr, rule n)+
  have s: "Slug (projr ?i1) = ''fox''" "Slug (projr ?i2) = ''fox''"
    by code_simp+
  from i s have acc:
    "\<exists>ing. ?i1 = Inr ing \<and> Slug ing = ''fox''" "\<exists>ing. ?i2 = Inr ing \<and> Slug ing = ''fox''"
    by blast+
  have e0: "story_versions_of empty_db 7 ''fox'' = []"
    by code_simp
  have x3: "expected_versions (known_versions empty_db 7 ''fox'')
              (map (request_hash demo_env) [fox_request fox_md, fox_request fox2_md, fox_request fox_md])
            = [1, 2, 1]"
    by code_simp
  have c3: "card (request_hash demo_env ` set [fox_request fox_md, fox_request fox2_md, fox_request fox_md]) = 2"
    by code_simp
  have d2: "distinct (map (request_hash demo_env) [fox_request fox_md, fox_request fox2_md])"
    by code_simp
  have n1: "request_hash demo_env (fox_request fox2_md)
            \<notin> content_hash ` set (story_versions_of demo_db1 7 ''fox'')"
    by code_simp
  have v1: "map version (story_versions_of demo_db1 7 ''fox'') = [1]"
    by code_simp
  have m1: "(if story_versions_of demo_db1 7 ''fox'' = [] then 1
             else Max (version ` set (story_versions_of demo_db1 7 ''fox'')) + 1) = 2"
    by code_simp
  have A: "\<forall>r \<in> set [fox_request fox_md, fox_request fox2_md, fox_request fox_md].
             \<exists>ing. Ingest demo_env (request_input r) = Inr ing \<and> Slug ing = ''fox''"
    using acc by simp
  have B: "\<forall>r \<in> set [fox_request fox_md, fox_request fox2_md].
             \<exists>ing. Ingest demo_env (request_input r) = Inr ing \<and> Slug ing = ''fox''"
    using acc by simp
  have C: "\<forall>r \<in> set [fox_request fox2_md].
             \<exists>ing. Ingest demo_env (request_input r) = Inr ing \<and> Slug ing = ''fox''"
    using acc by simp
  note ta = version_numbering[OF ok a1 a2 A]
  note tb = version_numbering[OF ok a1 a2 B]
  note tc = version_numbering[OF ok1 a1 a2 C]
  from ta have r1: "map (map_sum id Version)
     (fst (upsert_all demo_env empty_db demo_account
             [fox_request fox_md, fox_request fox2_md, fox_request fox_md]))
   = [Inr 1, Inr 2, Inr 1]"
    by (simp only: x3) simp
  from ta e0 have r2: "map version
       (story_versions_of
          (snd (upsert_all demo_env empty_db demo_account
                  [fox_request fox_md, fox_request fox2_md, fox_request fox_md])) 7 ''fox'')
     = map int [1..<Suc 2]"
    by (simp only: c3) 
  from tb e0 d2 have r3: "map (map_sum id Version)
       (fst (upsert_all demo_env empty_db demo_account [fox_request fox_md, fox_request fox2_md]))
     = map (\<lambda>n. Inr (int n)) [1..<Suc (length [fox_request fox_md, fox_request fox2_md])]"
    by blast
  from tc n1 obtain resp st1 row where
    r4: "AdminDraftUpsert demo_env demo_db1 demo_account (fox_request fox2_md) = (Inr resp, st1)"
      "Version resp = (if story_versions_of demo_db1 7 ''fox'' = [] then 1
             else Max (version ` set (story_versions_of demo_db1 7 ''fox'')) + 1)"
      "story_versions st1 = story_versions demo_db1 @ [row]"
      "version row = Version resp" "v_id row = StoryVersionID resp"
    by blast
  from r4 m1 have r5: "\<exists>resp st1 row.
         AdminDraftUpsert demo_env demo_db1 demo_account (fox_request fox2_md) = (Inr resp, st1)
         \<and> Version resp = 2
         \<and> story_versions st1 = story_versions demo_db1 @ [row]
         \<and> version row = 2 \<and> v_id row = StoryVersionID resp"
    by (intro exI[of _ resp] exI[of _ st1] exI[of _ row]) simp
  have u: "map int [1..<Suc 2] = [1, 2]"
    "map (\<lambda>n. Inr (int n)) [1..<Suc (length [fox_request fox_md, fox_request fox2_md])] = [Inr 1, Inr 2]"
    by (simp_all add: upt_conv_Cons)
  from r1 r2 r3 v1 r5 show ?thesis
    unfolding u by (intro conjI)
qed


text \<open>
  The fox manuscript ingested into an empty library: the preview of the manuscript gives
  the two segments that version 1 has in the store, a level-1 heading and a paragraph.
\<close>

theorem preview_matches_upsert_witness:
  "\<not> isl (AdminPreview demo_env fox_md)
   \<and> pv_Segments (projr (AdminPreview demo_env fox_md)) = stored_segments demo_db1 2
   \<and> map as_Ordinal (stored_segments demo_db1 2) = [1, 2]
   \<and> map as_Locator (stored_segments demo_db1 2)
       = [JObject [(''h'', JNumber 1), (''index'', JNumber 0), (''type'', JString ''heading'')],
          JObject [(''n'', JNumber 1), (''type'', JString ''para'')]]"
proof -
  let ?X = "AdminDraftUpsert demo_env empty_db demo_account (fox_request fox_md)"
  have ok: "db_ok empty_db"
    by code_simp
  have n: "\<not> isl (fst ?X)"
    by code_simp
  have up: "?X = (Inr (projr (fst ?X)), snd ?X)"
    using not_isl_projr[OF n] by (metis prod.collapse)
  have vid: "StoryVersionID (projr (fst ?X)) = 2"
    by code_simp
  have new: "StoryVersionID (projr (fst ?X)) \<notin> v_id ` set (story_versions empty_db)"
    by code_simp
  have md: "req_Markdown (fox_request fox_md) = fox_md"
    by (simp add: fox_request_def)
  from preview_matches_upsert[OF ok up] new obtain p where
    p: "AdminPreview demo_env (req_Markdown (fox_request fox_md)) = Inr p"
      "stored_segments (snd ?X) (StoryVersionID (projr (fst ?X))) = pv_Segments p"
    by blast
  have o: "map as_Ordinal (stored_segments demo_db1 2) = [1, 2]"
    by code_simp
  have l: "map as_Locator (stored_segments demo_db1 2)
       = [JObject [(''h'', JNumber 1), (''index'', JNumber 0), (''type'', JString ''heading'')],
          JObject [(''n'', JNumber 1), (''type'', JString ''para'')]]"
    by code_simp
  from p o l show ?thesis
    by (simp add: md vid demo_db1_def)
qed


text \<open>
  The manuscript \<open>chapters_md\<close> (a level-2 heading \<open>One\<close>, a paragraph, a level-1
  heading, an empty level-2 heading, a paragraph) ingested into an empty library: two
  chapters, \<open>One\<close> and \<open>Chapter 2\<close>, with the sections 3 and 4; the level-1 heading has
  no section, the other segments have the section of their chapter. The fox manuscript has
  no level-2 heading: one section, which every segment names.
\<close>

theorem chapter_inference_witness:
  "map (\<lambda>s. (sec_kind s, sec_title s, sec_ordinal s))
     (sections_of (snd (AdminDraftUpsert demo_env empty_db demo_account (fox_request chapters_md))) 2)
   = [(''chapter'', Some ''One'', 1), (''chapter'', Some ''Chapter 2'', 2)]
   \<and> map section_id
       (segments_of (snd (AdminDraftUpsert demo_env empty_db demo_account (fox_request chapters_md))) 2)
     = [Some 3, Some 3, None, Some 4, Some 4]
   \<and> map sec_id
       (sections_of (snd (AdminDraftUpsert demo_env empty_db demo_account (fox_request chapters_md))) 2)
     = [3, 4]
   \<and> map (\<lambda>s. (sec_kind s, sec_title s, sec_ordinal s)) (sections_of demo_db1 2)
     = [(''section'', None, 1)]
   \<and> map sec_id (sections_of demo_db1 2) = [3]
   \<and> map section_id (segments_of demo_db1 2) = [Some 3, Some 3]"
proof -
  let ?X = "AdminDraftUpsert demo_env empty_db demo_account (fox_request chapters_md)"
  let ?Y = "AdminDraftUpsert demo_env empty_db demo_account (fox_request fox_md)"
  let ?ix = "Ingest demo_env (request_input (fox_request chapters_md))"
  let ?iy = "Ingest demo_env (request_input (fox_request fox_md))"
  have ok: "db_ok empty_db"
    by code_simp
  have nx: "\<not> isl (fst ?X)" and ny: "\<not> isl (fst ?Y)"
    by code_simp+
  have upx: "?X = (Inr (projr (fst ?X)), snd ?X)"
    using not_isl_projr[OF nx] by (metis prod.collapse)
  have upy: "?Y = (Inr (projr (fst ?Y)), snd ?Y)"
    using not_isl_projr[OF ny] by (metis prod.collapse)
  have vx: "StoryVersionID (projr (fst ?X)) = 2" and vy: "StoryVersionID (projr (fst ?Y)) = 2"
    by code_simp+
  have newx: "StoryVersionID (projr (fst ?X)) \<notin> v_id ` set (story_versions empty_db)"
    and newy: "StoryVersionID (projr (fst ?Y)) \<notin> v_id ` set (story_versions empty_db)"
    by code_simp+
  have ni: "\<not> isl ?ix" "\<not> isl ?iy"
    by code_simp+
  have ix: "?ix = Inr (projr ?ix)" and iy: "?iy = Inr (projr ?iy)"
    by (rule not_isl_projr, rule ni)+
  have hx: "filter is_h2 (Segments (projr ?ix)) \<noteq> []"
    and hy: "filter is_h2 (Segments (projr ?iy)) = []"
    by code_simp+
  have tx: "map (\<lambda>p. (''chapter'', Some (chapter_title (snd p) (Suc (fst p))), int (fst p) + 1))
              (enumerate 0 (filter is_h2 (Segments (projr ?ix))))
            = [(''chapter'', Some ''One'', 1), (''chapter'', Some ''Chapter 2'', 2)]"
    by code_simp
  have a: "map section_id (segments_of (snd ?X) 2) = [Some 3, Some 3, None, Some 4, Some 4]"
    by code_simp
  have b: "map sec_id (sections_of (snd ?X) 2) = [3, 4]"
    by code_simp
  note cx = chapter_inference[OF ok upx newx ix, unfolded Let_def vx]
  note cy = chapter_inference[OF ok upy newy iy, unfolded Let_def vy]
  from cx hx tx have c:
    "map (\<lambda>s. (sec_kind s, sec_title s, sec_ordinal s)) (sections_of (snd ?X) 2)
     = [(''chapter'', Some ''One'', 1), (''chapter'', Some ''Chapter 2'', 2)]"
    by simp
  from cy hy have d:
    "map (\<lambda>s. (sec_kind s, sec_title s, sec_ordinal s)) (sections_of (snd ?Y) 2)
     = [(''section'', None, 1)]"
    by simp
  have f: "map sec_id (sections_of (snd ?Y) 2) = [3]"
    "map section_id (segments_of (snd ?Y) 2) = [Some 3, Some 3]"
    by code_simp+
  from a b c d f show ?thesis
    unfolding demo_db1_def by (intro conjI)
qed

end
